theory Spec2Isabelle
  imports Complex_Main "HOL-Library.AList" "HOL-Library.Sublist" "HOL-Library.Mapping"
    "HOL-Library.AList_Mapping" "HOL-Library.Multiset"
begin

section \<open>The trie (trie.py)\<close>

text \<open>
  A \<open>TrieNode\<close> has the fields \<open>word\<close> and \<open>value\<close> (both \<open>None\<close> on a fresh node) and
  the dictionary \<open>children\<close> from letters to nodes. The dictionary is an association list:
  a new key is appended, an existing key keeps its place, and iteration runs over the list.
\<close>

datatype 'v TrieNode =
  TrieNode (word: "string option") (val: "'v option") (children: "(char \<times> 'v TrieNode) list")

record 'v Trie =
  trie :: "'v TrieNode"
  words :: "string list"

definition new_node :: "'v TrieNode" where
  "new_node = TrieNode None None []"

definition new_trie :: "'v Trie" where
  "new_trie = \<lparr>trie = new_node, words = []\<rparr>"

text \<open>The walk of \<open>__getitem__\<close>: follow the letters, give up at a missing child.\<close>

fun find_node :: "'v TrieNode \<Rightarrow> string \<Rightarrow> 'v TrieNode option" where
  "find_node node [] = Some node"
| "find_node node (letter # rest) =
     (case map_of (children node) letter of
        None \<Rightarrow> None
      | Some child \<Rightarrow> find_node child rest)"

definition getitem :: "'v Trie \<Rightarrow> string \<Rightarrow> 'v option" where
  "getitem t w = (case find_node (trie t) w of None \<Rightarrow> None | Some node \<Rightarrow> val node)"

text \<open>
  The walk of \<open>__setitem__\<close>: a missing child is created, the node at the end of the walk
  gets \<open>word\<close> and \<open>value\<close>. \<open>set_node node letters w v\<close> is the node after the walk over
  the remaining \<open>letters\<close>; \<open>w\<close> is the whole word.
\<close>

fun set_node :: "'v TrieNode \<Rightarrow> string \<Rightarrow> string \<Rightarrow> 'v \<Rightarrow> 'v TrieNode" where
  "set_node node [] w v = TrieNode (Some w) (Some v) (children node)"
| "set_node node (letter # rest) w v =
     (let child = (case map_of (children node) letter of
                     None \<Rightarrow> new_node
                   | Some c \<Rightarrow> c)
      in TrieNode (word node) (val node)
           (AList.update letter (set_node child rest w v) (children node)))"

text \<open>
  \<open>node.word != word\<close> is tested on the node at the end of the walk before it is
  written; a node created by the walk has \<open>word = None\<close>.
\<close>

definition end_word :: "'v TrieNode \<Rightarrow> string \<Rightarrow> string option" where
  "end_word node0 w = (case find_node node0 w of None \<Rightarrow> None | Some node \<Rightarrow> word node)"

definition setitem :: "'v Trie \<Rightarrow> string \<Rightarrow> 'v \<Rightarrow> 'v Trie" where
  "setitem t w v =
     \<lparr>trie = set_node (trie t) w w v,
      words = (if end_word (trie t) w \<noteq> Some w then words t @ [w] else words t)\<rparr>"

text \<open>A trie state: the empty trie after a sequence of \<open>set\<close> operations.\<close>

definition build :: "(string \<times> 'v) list \<Rightarrow> 'v Trie" where
  "build ops = foldl (\<lambda>t (w, v). setitem t w v) new_trie ops"


subsection \<open>The row of the dynamic programme\<close>

text \<open>
  \<open>_searchRecursive\<close> computes \<open>currentRow\<close> from \<open>previousRow\<close> for one more letter of the
  trie path: the loop over \<open>column\<close> appends one cell per letter of the query \<open>word\<close>.
  Rows are lists of lengths and costs, so natural numbers. Every row the search handles has
  \<open>len(word) + 1\<close> cells (lemma \<open>length_next_row\<close> below), so no index is out of range.
\<close>

definition next_row :: "char \<Rightarrow> string \<Rightarrow> nat list \<Rightarrow> nat list" where
  "next_row letter query previousRow =
     foldl (\<lambda>currentRow column.
              let insertCost = currentRow ! (column - 1) + 1;
                  deleteCost = previousRow ! column + 1;
                  replaceCost = (if query ! (column - 1) \<noteq> letter
                                 then previousRow ! (column - 1) + 1
                                 else previousRow ! (column - 1))
              in currentRow @ [min insertCost (min deleteCost replaceCost)])
       [previousRow ! 0 + 1] [1..<length query + 1]"

lemma size_child_less [termination_simp]:
  "(l, child) \<in> set (children node) \<Longrightarrow> size child < size node"
proof -
  have "(l, child) \<in> set cs \<Longrightarrow> size child < Suc (size_list (size_prod (\<lambda>_. 0) size) cs)"
    for cs
    by (induction cs) auto
  from this[of "children node"]
  show "(l, child) \<in> set (children node) \<Longrightarrow> size child < size node"
    by (cases node) auto
qed

fun searchRecursive ::
  "'v TrieNode \<Rightarrow> char \<Rightarrow> string \<Rightarrow> nat list \<Rightarrow> ('v TrieNode \<times> nat) list \<Rightarrow> nat
     \<Rightarrow> ('v TrieNode \<times> nat) list" where
  "searchRecursive node letter query previousRow results maxCost =
     (let currentRow = next_row letter query previousRow;
          results1 = (if last currentRow \<le> maxCost
                      then results @ [(node, last currentRow)] else results)
      in if min_list currentRow \<le> maxCost
         then foldl (\<lambda>res (l, child). searchRecursive child l query currentRow res maxCost)
                results1 (children node)
         else results1)"

text \<open>The loop over the children of the root, shared by both searches.\<close>

definition search_results :: "'v Trie \<Rightarrow> string \<Rightarrow> nat \<Rightarrow> ('v TrieNode \<times> nat) list" where
  "search_results t query maxCost =
     foldl (\<lambda>res (l, child). searchRecursive child l query [0..<length query + 1] res maxCost)
       [] (children (trie t))"

definition search_correction :: "'v Trie \<Rightarrow> string \<Rightarrow> nat \<Rightarrow> (string \<times> nat) list" where
  "search_correction t query maxCost =
     concat (map (\<lambda>(n, v). case word n of None \<Rightarrow> [] | Some w \<Rightarrow> [(w, v)])
               (search_results t query maxCost))"

text \<open>
  The stack loop of \<open>search_prediction\<close>: \<open>S.pop()\<close> takes the last element, the children
  are pushed in the order of the dictionary. \<open>totalResults\<close> is a dictionary from words to
  costs, here an association list; \<open>items()\<close> is the list itself.
\<close>

lemma size_children_less:
  "sum_list (map size (map snd cs)) < Suc (size_list (size_prod (\<lambda>_. 0) size) cs)"
  by (induction cs) auto

function collect :: "'v TrieNode list \<Rightarrow> nat \<Rightarrow> (string \<times> nat) list \<Rightarrow> (string \<times> nat) list" where
  "collect S cost totalResults =
     (if S = [] then totalResults
      else
        let n = last S;
            S1 = butlast S;
            totalResults1 =
              (case word n of
                 None \<Rightarrow> totalResults
               | Some w \<Rightarrow>
                   if (case map_of totalResults w of None \<Rightarrow> True | Some c \<Rightarrow> c > cost)
                   then AList.update w cost totalResults
                   else totalResults)
        in collect (S1 @ map snd (children n)) cost totalResults1)"
  by pat_completeness auto
termination
proof (relation "measure (\<lambda>(S, cost, tot). sum_list (map size S))", goal_cases)
  case 1
  show ?case by simp
next
  case (2 S cost totalResults n S1 totalResults1)
  from 2(1) have S: "S = butlast S @ [last S]" by simp
  have "sum_list (map size (butlast S @ map snd (children (last S))))
        < sum_list (map size (butlast S @ [last S]))"
    using size_children_less[of "children (last S)"] by (cases "last S") auto
  with S 2 show ?case by simp
qed

definition search_prediction :: "'v Trie \<Rightarrow> string \<Rightarrow> nat \<Rightarrow> (string \<times> nat) list" where
  "search_prediction t query maxCost =
     foldl (\<lambda>totalResults (node, cost). collect [node] cost totalResults)
       [] (search_results t query maxCost)"


section \<open>The keyboard engine (vkeyboard.py)\<close>

text \<open>
  Python floats are modelled as real numbers: \<open>x ** 0.5\<close> is the square root, \<open>exp\<close> the
  exponential, sums and products are exact. What Python raises is a value of \<open>error\<close>.
\<close>

datatype error = TypeError | KeyError | ZeroDivisionError | IndexError

definition err_bind :: "error + 'a \<Rightarrow> ('a \<Rightarrow> error + 'b) \<Rightarrow> error + 'b" where
  "err_bind m f = (case m of Inl e \<Rightarrow> Inl e | Inr x \<Rightarrow> f x)"

text \<open>\<open>xs[i]\<close> on a list: \<open>xs[-1]\<close> is the last element, and an index outside the list raises.\<close>

definition py_nth :: "'a list \<Rightarrow> int \<Rightarrow> error + 'a" where
  "py_nth xs i =
     (if 0 \<le> i \<and> i < int (length xs) then Inr (xs ! nat i)
      else if i < 0 \<and> - int (length xs) \<le> i then Inr (xs ! nat (int (length xs) + i))
      else Inl IndexError)"

type_synonym point = "real \<times> real"

text \<open>The value stored for a word: the key centres of its letters, the length of that
  path, and the frequency of the word in the corpus.\<close>

type_synonym entry = "point list \<times> real \<times> real"

record VKeyboard =
  kb_words :: "entry Trie"
  key_centers :: "char \<rightharpoonup> point"
  key_width :: real
  key_height :: real
  user_nograms :: int
  user_unigrams :: "(string, int) mapping"
  user_bigrams :: "(string \<times> string, int) mapping"

text \<open>\<open>val_dist\<close>: the path with the sum of the lengths of its segments.\<close>

definition segment :: "point list \<Rightarrow> nat \<Rightarrow> real" where
  "segment path i =
     sqrt ((fst (path ! i) - fst (path ! (i - 1)))\<^sup>2 + (snd (path ! i) - snd (path ! (i - 1)))\<^sup>2)"

definition val_dist :: "point list \<Rightarrow> point list \<times> real" where
  "val_dist path = (path, foldl (\<lambda>tot i. tot + segment path i) 0 [1..<length path])"

definition get_ngram_probability :: "VKeyboard \<Rightarrow> string \<Rightarrow> string \<Rightarrow> error + real" where
  "get_ngram_probability st w prev_word =
     (let nogram = user_nograms st;
          bigram = Mapping.lookup_default 0 (user_bigrams st) (prev_word, w);
          unigram1 = Mapping.lookup_default 0 (user_unigrams st) prev_word;
          unigram2 = Mapping.lookup_default 0 (user_unigrams st) w;
          len = int (Mapping.size (user_unigrams st))
      in if unigram1 + len = 0 then Inl ZeroDivisionError
         else if nogram + len = 0 then Inl ZeroDivisionError
         else
           let p = 0.4 * real_of_int (bigram + 1) / real_of_int (unigram1 + len)
                   + 0.1 * real_of_int (unigram2 + 1) / real_of_int (nogram + len)
           in case getitem (kb_words st) w of
                None \<Rightarrow> Inl TypeError
              | Some (path, tot, freq) \<Rightarrow> Inr (p + 0.5 * freq))"

text \<open>\<open>list.sort(key=..., reverse=True)\<close>: stable, in descending order of the key.\<close>

definition sort_reverse :: "(string \<times> real) list \<Rightarrow> (string \<times> real) list" where
  "sort_reverse candidates = rev (sort_key snd (rev candidates))"

text \<open>
  \<open>bisect.bisect_left(a, x)\<close> of the standard library: the binary search for the first
  position whose element is not below \<open>x\<close>.
\<close>

function bisect_loop :: "real list \<Rightarrow> real \<Rightarrow> nat \<Rightarrow> nat \<Rightarrow> nat" where
  "bisect_loop a x lo hi =
     (if lo < hi
      then let mid = (lo + hi) div 2
           in if a ! mid < x then bisect_loop a x (mid + 1) hi else bisect_loop a x lo mid
      else lo)"
  by pat_completeness auto
termination
  by (relation "measure (\<lambda>(a, x, lo, hi). hi - lo)") auto

definition bisect_left :: "real list \<Rightarrow> real \<Rightarrow> nat" where
  "bisect_left a x = bisect_loop a x 0 (length a)"

text \<open>\<open>word_sample_n\<close>: the cumulative lengths, then one point for each \<open>k\<close> in \<open>range(n)\<close>.\<close>

definition cum_lengths :: "point list \<Rightarrow> real list" where
  "cum_lengths path =
     foldl (\<lambda>cum_length i. cum_length @ [last cum_length + segment path i]) [0] [1..<length path]"

definition sample_point :: "point list \<Rightarrow> real list \<Rightarrow> nat \<Rightarrow> nat \<Rightarrow> error + point" where
  "sample_point path cum_length n k =
     (if int n - 1 = 0 then Inl ZeroDivisionError
      else
        let L = min (real k * last cum_length / real_of_int (int n - 1)) (last cum_length);
            i0 = int (bisect_left (drop 1 cum_length) L);
            i = (if i0 \<ge> int (length path) - 1 then i0 - 1 else i0)
        in err_bind (py_nth cum_length (i + 1)) (\<lambda>c1.
           err_bind (py_nth cum_length i) (\<lambda>c0.
             let p = (if c1 = c0 then 0 else (L - c0) / (c1 - c0))
             in err_bind (py_nth path i) (\<lambda>a.
                err_bind (py_nth path (i + 1)) (\<lambda>b.
                  Inr (fst a + p * (fst b - fst a), snd a + p * (snd b - snd a)))))))"

fun sample_loop :: "point list \<Rightarrow> real list \<Rightarrow> nat \<Rightarrow> nat list \<Rightarrow> point list \<Rightarrow> error + point list"
  where
  "sample_loop path cum_length n [] points = Inr points"
| "sample_loop path cum_length n (k # ks) points =
     err_bind (sample_point path cum_length n k)
       (\<lambda>pt. sample_loop path cum_length n ks (points @ [pt]))"

definition resample :: "point list \<Rightarrow> nat \<Rightarrow> error + point list" where
  "resample path n = sample_loop path (cum_lengths path) n [0..<n] []"

definition word_sample_n :: "VKeyboard \<Rightarrow> string \<Rightarrow> nat \<Rightarrow> error + point list" where
  "word_sample_n st w n =
     (case getitem (kb_words st) w of
        None \<Rightarrow> Inl TypeError
      | Some (path, tot, freq) \<Rightarrow> resample path n)"

definition gesture_distance :: "VKeyboard \<Rightarrow> point list \<Rightarrow> string \<Rightarrow> error + real" where
  "gesture_distance st gesture w =
     (let n = length gesture
      in err_bind (word_sample_n st w n) (\<lambda>template.
           if n = 0 then Inl ZeroDivisionError
           else Inr (sum_list (map (\<lambda>((x1, y1), (x2, y2)). sqrt ((x1 - x2)\<^sup>2 + (y1 - y2)\<^sup>2))
                                (zip gesture template)) / real n)))"


text \<open>
  \<open>candidate_matches\<close>: the loop over the vocabulary with its three \<open>continue\<close> tests, then
  the score of the words that are left. The previous word comes from the text area and is
  an argument here.
\<close>

fun matches_loop ::
  "VKeyboard \<Rightarrow> string \<Rightarrow> point list \<Rightarrow> real \<Rightarrow> string list \<Rightarrow> (string \<times> real) list
     \<Rightarrow> error + (string \<times> real) list" where
  "matches_loop st prev_word gesture gest_length [] candidates = Inr candidates"
| "matches_loop st prev_word gesture gest_length (w # ws) candidates =
     (case getitem (kb_words st) w of
        None \<Rightarrow> Inl TypeError
      | Some (pts, plen, freq) \<Rightarrow>
          err_bind (py_nth pts 0) (\<lambda>p0.
          err_bind (py_nth gesture 0) (\<lambda>g0.
            if \<bar>fst p0 - fst g0\<bar> > key_width st \<or> \<bar>snd p0 - snd g0\<bar> > key_height st
            then matches_loop st prev_word gesture gest_length ws candidates
            else
              err_bind (py_nth pts (- 1)) (\<lambda>p1.
              err_bind (py_nth gesture (- 1)) (\<lambda>g1.
                if \<bar>fst p1 - fst g1\<bar> > key_width st \<or> \<bar>snd p1 - snd g1\<bar> > key_height st
                then matches_loop st prev_word gesture gest_length ws candidates
                else if \<not> (0.8 * plen \<le> gest_length \<and> gest_length \<le> 1.4 * plen)
                then matches_loop st prev_word gesture gest_length ws candidates
                else
                  err_bind (gesture_distance st gesture w) (\<lambda>d.
                  err_bind (get_ngram_probability st w prev_word) (\<lambda>pr.
                    matches_loop st prev_word gesture gest_length ws
                      (candidates @ [(w, exp (- d / 2) * pr)]))))))))"

definition candidate_matches ::
  "VKeyboard \<Rightarrow> string \<Rightarrow> point list \<Rightarrow> error + (string \<times> real) list" where
  "candidate_matches st prev_word gesture =
     (let gest_length = snd (val_dist gesture)
      in err_bind (matches_loop st prev_word gesture gest_length (words (kb_words st)) [])
           (\<lambda>candidates. Inr (sort_reverse candidates)))"

text \<open>The list comprehension of \<open>candidate_predictions\<close> and \<open>candidate_corrections\<close>.\<close>

fun score_all :: "VKeyboard \<Rightarrow> string \<Rightarrow> (string \<times> nat) list \<Rightarrow> error + (string \<times> real) list"
  where
  "score_all st prev_word [] = Inr []"
| "score_all st prev_word ((w, d) # rest) =
     err_bind (get_ngram_probability st w prev_word) (\<lambda>p.
     err_bind (score_all st prev_word rest) (\<lambda>scored.
       Inr ((w, 0.001 ^ d * p) # scored)))"

definition candidate_predictions ::
  "VKeyboard \<Rightarrow> string \<Rightarrow> string \<Rightarrow> error + (string \<times> real) list" where
  "candidate_predictions st prev_word w =
     err_bind (score_all st prev_word (search_prediction (kb_words st) w 2))
       (\<lambda>candidates. Inr (sort_reverse candidates))"

definition candidate_corrections ::
  "VKeyboard \<Rightarrow> string \<Rightarrow> string \<Rightarrow> error + (string \<times> real) list" where
  "candidate_corrections st prev_word w =
     err_bind (score_all st prev_word (search_correction (kb_words st) w 2))
       (\<lambda>candidates. Inr (sort_reverse candidates))"

text \<open>
  The commit of a word in \<open>on_touch_up\<close>: the branch taken when the key pressed ends a
  word. \<open>str.lower\<close> maps the letters A to Z to a to z;
  \<open>map(self.key_centers.__getitem__, ...)\<close> raises \<open>KeyError\<close> at a letter without a key.
  \<open>cur_word not in self.words\<close> runs over the word sequence of the trie. The events
  dispatched to the text area after the counters are updated are not part of the model.
  When the lookup of a key centre raises, the model returns the error and drops the
  state, in which the count of committed words has already been incremented.
\<close>

definition lower_char :: "char \<Rightarrow> char" where
  "lower_char c =
     (let n = (of_char c :: nat) in if 65 \<le> n \<and> n \<le> 90 then char_of (n + 32) else c)"

definition lower :: "string \<Rightarrow> string" where
  "lower s = map lower_char s"

fun map_centers :: "(char \<rightharpoonup> point) \<Rightarrow> string \<Rightarrow> error + point list" where
  "map_centers kc [] = Inr []"
| "map_centers kc (c # cs) =
     (case kc c of
        None \<Rightarrow> Inl KeyError
      | Some pt \<Rightarrow> err_bind (map_centers kc cs) (\<lambda>pts. Inr (pt # pts)))"

definition commit_word :: "VKeyboard \<Rightarrow> string \<Rightarrow> string \<Rightarrow> error + VKeyboard" where
  "commit_word st prev_word cur_word =
     (if cur_word \<noteq> []
      then
        let st1 = st\<lparr>user_nograms := user_nograms st + 1\<rparr>
        in err_bind
             (if cur_word \<notin> set (words (kb_words st1))
              then err_bind (map_centers (key_centers st1) (lower cur_word)) (\<lambda>path.
                     Inr (st1\<lparr>kb_words :=
                            setitem (kb_words st1) (lower cur_word)
                              (fst (val_dist path), snd (val_dist path), 0)\<rparr>))
              else Inr st1)
             (\<lambda>st2.
                let st3 = st2\<lparr>user_unigrams :=
                            Mapping.update cur_word
                              (Mapping.lookup_default 0 (user_unigrams st2) cur_word + 1)
                              (user_unigrams st2)\<rparr>
                in if prev_word \<noteq> []
                   then Inr (st3\<lparr>user_bigrams :=
                               Mapping.update (prev_word, cur_word)
                                 (Mapping.lookup_default 0 (user_bigrams st3) (prev_word, cur_word) + 1)
                                 (user_bigrams st3)\<rparr>)
                   else Inr st3)
      else Inr st)"


section \<open>Invariants of the trie\<close>

text \<open>
  A node at the end of the path \<open>p\<close> is well formed when its \<open>word\<close> is unset or \<open>p\<close>, its
  \<open>value\<close> is set exactly when its \<open>word\<close> is, the keys of \<open>children\<close> are distinct (it is
  a dictionary) and every child is well formed at its own path.
\<close>

fun wf_node :: "string \<Rightarrow> 'v TrieNode \<Rightarrow> bool" where
  "wf_node p (TrieNode w v cs) =
     ((w = None \<or> w = Some p) \<and> (w = None \<longleftrightarrow> v = None) \<and> distinct (map fst cs) \<and>
      (\<forall>(c, ch) \<in> set cs. wf_node (p @ [c]) ch))"

definition trie_inv :: "'v Trie \<Rightarrow> bool" where
  "trie_inv t \<longleftrightarrow> wf_node [] (trie t) \<and> distinct (words t) \<and>
     set (words t) = {w. end_word (trie t) w \<noteq> None}"


section \<open>Edit distance and the rows of the search\<close>

text \<open>
  The edit distance of the specification: \<open>lev a b i j\<close> is the least number of insertions,
  deletions and substitutions (each of cost one) that turn the first \<open>i\<close> letters of \<open>a\<close>
  into the first \<open>j\<close> letters of \<open>b\<close>, by the recurrence of Wagner and Fischer.
\<close>

fun lev :: "string \<Rightarrow> string \<Rightarrow> nat \<Rightarrow> nat \<Rightarrow> nat" where
  "lev a b 0 j = j"
| "lev a b (Suc i) 0 = Suc i"
| "lev a b (Suc i) (Suc j) =
     min (min (lev a b i (Suc j) + 1) (lev a b (Suc i) j + 1))
         (lev a b i j + (if a ! i = b ! j then 0 else 1))"

definition edit_distance :: "string \<Rightarrow> string \<Rightarrow> nat" where
  "edit_distance a b = lev a b (length a) (length b)"

text \<open>
  The row that the search holds at the node with a given path: the first row
  \<open>range(len(word) + 1)\<close>, extended by \<open>next_row\<close> for each letter of the path. Its last
  cell is the cost that \<open>_searchRecursive\<close> compares with \<open>maxCost\<close>.
\<close>

definition path_row :: "string \<Rightarrow> string \<Rightarrow> nat list" where
  "path_row query path =
     foldl (\<lambda>row letter. next_row letter query row) [0..<length query + 1] path"

definition row_cost :: "string \<Rightarrow> string \<Rightarrow> nat" where
  "row_cost path query = last (path_row query path)"

text \<open>The costs of the non-empty prefixes of a word that are within \<open>k\<close>.\<close>

definition matched_prefix_costs :: "string \<Rightarrow> string \<Rightarrow> nat \<Rightarrow> nat list" where
  "matched_prefix_costs w q k =
     filter (\<lambda>c. c \<le> k) (map (\<lambda>p. row_cost p q) (tl (prefixes w)))"

text \<open>Auxiliary notions of the proofs: one cell of a row, and a row filled up to a column.\<close>

definition row_cell :: "char \<Rightarrow> string \<Rightarrow> nat list \<Rightarrow> nat list \<Rightarrow> nat \<Rightarrow> nat" where
  "row_cell letter query previousRow currentRow column =
     (let insertCost = currentRow ! (column - 1) + 1;
          deleteCost = previousRow ! column + 1;
          replaceCost = (if query ! (column - 1) \<noteq> letter
                         then previousRow ! (column - 1) + 1
                         else previousRow ! (column - 1))
      in min insertCost (min deleteCost replaceCost))"

definition row_upto :: "char \<Rightarrow> string \<Rightarrow> nat list \<Rightarrow> nat \<Rightarrow> nat list" where
  "row_upto letter query previousRow m =
     foldl (\<lambda>currentRow column. currentRow @ [row_cell letter query previousRow currentRow column])
       [previousRow ! 0 + 1] [1..<m + 1]"

text \<open>The nodes at and below a node whose row is within \<open>k\<close>, each with the cost of its row.\<close>

definition hits :: "'v TrieNode \<Rightarrow> string \<Rightarrow> string \<Rightarrow> nat \<Rightarrow> ('v TrieNode \<times> nat) set" where
  "hits node p q k =
     {(n, row_cost (p @ s) q) | s n. find_node node s = Some n \<and> row_cost (p @ s) q \<le> k}"

text \<open>The words set at a node and below it, and the costs under which a word is collected.\<close>

fun node_words :: "'v TrieNode \<Rightarrow> string set" where
  "node_words (TrieNode w v cs) =
     (case w of None \<Rightarrow> {} | Some x \<Rightarrow> {x}) \<union> (\<Union>(c, ch) \<in> set cs. node_words ch)"

definition costs_of :: "('v TrieNode \<times> nat) list \<Rightarrow> string \<Rightarrow> nat set" where
  "costs_of rs w = {c. \<exists>n. (n, c) \<in> set rs \<and> w \<in> node_words n}"

section \<open>Auxiliary notions and example states\<close>

text \<open>
  Notions used in the statements and proofs below, and the concrete states of the engine
  on which the statements are evaluated.
\<close>

definition end_val :: "'v TrieNode \<Rightarrow> string \<Rightarrow> 'v option" where
  "end_val node0 w = (case find_node node0 w of None \<Rightarrow> None | Some node \<Rightarrow> val node)"

definition st0 :: VKeyboard where
  "st0 = \<lparr>kb_words = build [(''the'', ([(0, 0), (1, 0), (1, 0)], 1, 1 / 2))],
          key_centers = Map.empty, key_width = 1, key_height = 1,
          user_nograms = 1,
          user_unigrams = Mapping.update ''the'' 1 Mapping.empty,
          user_bigrams = Mapping.empty\<rparr>"

definition scored :: "VKeyboard \<Rightarrow> string \<Rightarrow> (string \<times> real) list \<Rightarrow> (string \<times> nat) list \<Rightarrow> bool"
  where
  "scored st prev_word cands rs =
     list_all2 (\<lambda>c r. fst c = fst r \<and>
                  (\<exists>p. get_ngram_probability st (fst r) prev_word = Inr p \<and>
                       snd c = 0.001 ^ snd r * p)) cands rs"

definition st1 :: VKeyboard where
  "st1 = \<lparr>kb_words = build [(''a'', ([(0, 0)], 0, 1 / 2))],
          key_centers = [CHR ''a'' \<mapsto> (0, 0)], key_width = 1, key_height = 1,
          user_nograms = 1,
          user_unigrams = Mapping.update ''the'' 1 Mapping.empty,
          user_bigrams = Mapping.empty\<rparr>"

definition cum_upto :: "point list \<Rightarrow> nat \<Rightarrow> real list" where
  "cum_upto path m =
     foldl (\<lambda>cum_length i. cum_length @ [last cum_length + segment path i]) [0] [1..<m]"

definition kept :: "VKeyboard \<Rightarrow> point list \<Rightarrow> real \<Rightarrow> string \<Rightarrow> bool" where
  "kept st gesture gest_length w =
     (case getitem (kb_words st) w of
        None \<Rightarrow> False
      | Some (pts, plen, freq) \<Rightarrow>
          \<bar>fst (hd pts) - fst (hd gesture)\<bar> \<le> key_width st \<and>
          \<bar>snd (hd pts) - snd (hd gesture)\<bar> \<le> key_height st \<and>
          \<bar>fst (last pts) - fst (last gesture)\<bar> \<le> key_width st \<and>
          \<bar>snd (last pts) - snd (last gesture)\<bar> \<le> key_height st \<and>
          0.8 * plen \<le> gest_length \<and> gest_length \<le> 1.4 * plen)"

definition st3 :: VKeyboard where
  "st3 = \<lparr>kb_words = build [(''ab'', ([(0, 0), (3, 0)], 3, 1 / 2))],
          key_centers = [CHR ''a'' \<mapsto> (0, 0), CHR ''b'' \<mapsto> (3, 0)],
          key_width = 1, key_height = 1,
          user_nograms = 1,
          user_unigrams = Mapping.update ''the'' 1 Mapping.empty,
          user_bigrams = Mapping.empty\<rparr>"

definition swipe :: "point list" where
  "swipe = [(0, 0), (4, 0)]"

definition far_tap :: "point list" where
  "far_tap = [(5, 0)]"

definition st_cat :: VKeyboard where
  "st_cat = \<lparr>kb_words = build [(''cat'', ([(0, 0), (1, 0), (2, 0)], 2, 1 / 2))],
             key_centers = [CHR ''c'' \<mapsto> (0, 0), CHR ''a'' \<mapsto> (1, 0), CHR ''t'' \<mapsto> (2, 0)],
             key_width = 1, key_height = 1,
             user_nograms = 1,
             user_unigrams = Mapping.update ''the'' 1 Mapping.empty,
             user_bigrams = Mapping.empty\<rparr>"

definition session_inv :: "VKeyboard \<Rightarrow> bool" where
  "session_inv st \<longleftrightarrow>
     finite (Mapping.keys (user_unigrams st)) \<and> Mapping.keys (user_unigrams st) \<noteq> {} \<and>
     (\<forall>k. 0 \<le> Mapping.lookup_default 0 (user_unigrams st) k) \<and> 0 \<le> user_nograms st"

definition result_words :: "('v TrieNode \<times> nat) list \<Rightarrow> string list" where
  "result_words rs = concat (map (\<lambda>(n, v). case word n of None \<Rightarrow> [] | Some w \<Rightarrow> [w]) rs)"

section \<open>Lemmas on the trie\<close>

lemma wf_new_node: "wf_node p new_node"
  by (simp add: new_node_def)

lemma wf_node_child:
  "wf_node p node \<Longrightarrow> map_of (children node) c = Some ch \<Longrightarrow> wf_node (p @ [c]) ch"
  by (cases node) (auto dest: map_of_SomeD)

lemma set_alist_update:
  "set (AList.update k v al) \<subseteq> insert (k, v) (set al)"
  by (induct al) auto

lemma wf_set_node: "wf_node p node \<Longrightarrow> wf_node p (set_node node s (p @ s) v)"
proof (induction s arbitrary: p node)
  case Nil
  then show ?case by (cases node) auto
next
  case (Cons c s)
  obtain w x cs where node: "node = TrieNode w x cs" by (cases node)
  define child where "child = (case map_of cs c of None \<Rightarrow> new_node | Some ch \<Rightarrow> ch)"
  have "wf_node (p @ [c]) child"
    using Cons.prems node by (auto simp: child_def wf_new_node split: option.splits dest: map_of_SomeD)
  then have ch: "wf_node (p @ [c]) (set_node child s ((p @ [c]) @ s) v)"
    by (rule Cons.IH)
  have kids: "wf_node (p @ [a]) b"
    if "(a, b) \<in> set (AList.update c (set_node child s (p @ c # s) v) cs)" for a b
  proof -
    from that set_alist_update[of c "set_node child s (p @ c # s) v" cs]
    have "(a, b) = (c, set_node child s (p @ c # s) v) \<or> (a, b) \<in> set cs" by auto
    then show ?thesis using ch Cons.prems node by auto
  qed
  have "set_node node (c # s) (p @ c # s) v =
        TrieNode w x (AList.update c (set_node child s (p @ c # s) v) cs)"
    by (simp add: node child_def)
  then show ?case using Cons.prems node kids
    by (auto simp: distinct_update)
qed

lemma end_word_Nil: "end_word node [] = word node"
  by (simp add: end_word_def)

lemma end_word_Cons:
  "end_word node (c # r) =
     (case map_of (children node) c of None \<Rightarrow> None | Some ch \<Rightarrow> end_word ch r)"
  by (simp add: end_word_def split: option.splits)

lemma end_word_new_node: "end_word new_node r = None"
  by (cases r) (simp_all add: end_word_Nil end_word_Cons new_node_def)

lemma end_word_set_node:
  "end_word (set_node node s w v) s' = (if s' = s then Some w else end_word node s')"
proof (induction s arbitrary: node s')
  case Nil
  then show ?case by (cases s') (auto simp: end_word_Nil end_word_Cons)
next
  case (Cons c s)
  show ?case
  proof (cases s')
    case Nil
    then show ?thesis by (simp add: end_word_Nil Let_def)
  next
    case [simp]: (Cons c' r)
    show ?thesis
    proof (cases "c' = c")
      case False
      then show ?thesis by (simp add: end_word_Cons Let_def update_conv')
    next
      case True
      then show ?thesis 
        by (simp add: end_word_Cons Let_def update_conv' Cons.IH end_word_new_node split: option.splits)
    qed
  qed
qed


lemma wf_end_word: "wf_node p node \<Longrightarrow> end_word node s = None \<or> end_word node s = Some (p @ s)"
proof (induction s arbitrary: p node)
  case Nil
  then show ?case by (cases node) (auto simp: end_word_Nil)
next
  case (Cons c s)
  show ?case
  proof (cases "map_of (children node) c")
    case None
    then show ?thesis by (simp add: end_word_Cons)
  next
    case (Some ch)
    from wf_node_child[OF Cons.prems Some] have "wf_node (p @ [c]) ch" .
    from Cons.IH[OF this] show ?thesis using Some by (simp add: end_word_Cons)
  qed
qed


lemma trie_inv_new: "trie_inv new_trie"
  by (auto simp: trie_inv_def new_trie_def wf_new_node end_word_new_node)

lemma trie_inv_setitem: "trie_inv t \<Longrightarrow> trie_inv (setitem t w v)"
proof -
  assume inv: "trie_inv t"
  then have wf: "wf_node [] (trie t)" by (simp add: trie_inv_def)
  from wf_set_node[OF wf, of w v] have 1: "wf_node [] (trie (setitem t w v))"
    by (simp add: setitem_def)
  from wf_end_word[OF wf, of w] have ew: "end_word (trie t) w = None \<or> end_word (trie t) w = Some w"
    by simp
  have 2: "distinct (words (setitem t w v))"
    using inv ew by (auto simp: setitem_def trie_inv_def)
  have 3: "set (words (setitem t w v)) = {u. end_word (trie (setitem t w v)) u \<noteq> None}"
    using inv ew by (auto simp: setitem_def trie_inv_def end_word_set_node)
  from 1 2 3 show ?thesis by (simp add: trie_inv_def)
qed

lemma trie_inv_build: "trie_inv (build ops)"
proof -
  have "trie_inv t \<Longrightarrow> trie_inv (foldl (\<lambda>t (w, v). setitem t w v) t ops)" for t :: "'a Trie"
    by (induction ops arbitrary: t) (auto simp: trie_inv_setitem)
  then show ?thesis by (simp add: build_def trie_inv_new)
qed

lemma build_snoc: "build (ops @ [(w, v)]) = setitem (build ops) w v"
  by (simp add: build_def)

lemma find_node_set_node_self:
  "\<exists>cs. find_node (set_node node s w v) s = Some (TrieNode (Some w) (Some v) cs)"
  by (induction s arbitrary: node) (auto simp: Let_def update_conv')

lemma getitem_setitem_same: "getitem (setitem t w v) w = Some v"
  using find_node_set_node_self[of "trie t" w w v] by (auto simp: getitem_def setitem_def)

lemma count_list_distinct:
  "distinct xs \<Longrightarrow> x \<in> set xs \<Longrightarrow> count_list xs x = 1"
  by (induction xs) auto

lemma words_setitem_count:
  assumes "trie_inv t" 
  shows "count_list (words (setitem t w v)) w = 1"
proof -
  from trie_inv_setitem[OF assms] have inv: "trie_inv (setitem t w v)" .
  have "end_word (trie (setitem t w v)) w = Some w" by (simp add: setitem_def end_word_set_node)
  with inv have "w \<in> set (words (setitem t w v))" by (simp add: trie_inv_def)
  moreover from inv have "distinct (words (setitem t w v))" by (simp add: trie_inv_def)
  ultimately show ?thesis by (simp add: count_list_distinct)
qed

lemma words_setitem_again: "words (setitem (setitem t w v) w v') = words (setitem t w v)"
  by (simp add: setitem_def end_word_set_node)


section \<open>Lemmas on the search\<close>

lemma next_row_upto: "next_row letter query prev = row_upto letter query prev (length query)"
  by (simp add: next_row_def row_upto_def row_cell_def)

lemma row_upto_0: "row_upto c q prev 0 = [prev ! 0 + 1]"
  by (simp add: row_upto_def)

lemma row_upto_Suc:
  "row_upto c q prev (Suc m) = row_upto c q prev m @ [row_cell c q prev (row_upto c q prev m) (Suc m)]"
  by (simp add: row_upto_def)

lemma length_row_upto: "length (row_upto c q prev m) = Suc m"
  by (induction m) (simp_all add: row_upto_0 row_upto_Suc)

lemma row_upto_nth_stable:
  "j \<le> m \<Longrightarrow> m \<le> m' \<Longrightarrow> row_upto c q prev m' ! j = row_upto c q prev m ! j"
proof (induction m' arbitrary: m)
  case 0
  then show ?case by simp
next
  case (Suc m')
  show ?case
  proof (cases "m = Suc m'")
    case True
    then show ?thesis by simp
  next
    case False
    with Suc.prems have "m \<le> m'" by simp
    from Suc.IH[OF Suc.prems(1) this] Suc.prems \<open>m \<le> m'\<close> show ?thesis
      by (simp add: row_upto_Suc nth_append length_row_upto)
  qed
qed

lemma length_next_row: "length (next_row c q prev) = length q + 1"
  by (simp add: next_row_upto length_row_upto)

lemma next_row_nth_0: "next_row c q prev ! 0 = prev ! 0 + 1"
  using row_upto_nth_stable[of 0 0 "length q" c q prev] by (simp add: next_row_upto row_upto_0)

lemma next_row_nth_Suc:
  assumes "j < length q"
  shows "next_row c q prev ! Suc j =
         min (next_row c q prev ! j + 1)
             (min (prev ! Suc j + 1) (if q ! j \<noteq> c then prev ! j + 1 else prev ! j))"
proof -
  have 1: "next_row c q prev ! Suc j = row_upto c q prev (Suc j) ! Suc j"
    using assms row_upto_nth_stable[of "Suc j" "Suc j" "length q" c q prev]
    by (simp add: next_row_upto)
  have 2: "next_row c q prev ! j = row_upto c q prev j ! j"
    using assms row_upto_nth_stable[of j j "length q" c q prev]
    by (simp add: next_row_upto)
  show ?thesis unfolding 1 2
    by (simp add: row_upto_Suc nth_append length_row_upto row_cell_def Let_def)
qed

lemma lev_0_right: "lev a b i 0 = i"
  by (cases i) simp_all

lemma lev_append: "i \<le> length a \<Longrightarrow> lev (a @ a') b i j = lev a b i j"
  by (induction a b i j rule: lev.induct) (simp_all add: nth_append)

lemma path_row_Nil: "path_row q [] = [0..<length q + 1]"
  by (simp add: path_row_def)

lemma path_row_snoc: "path_row q (p @ [c]) = next_row c q (path_row q p)"
  by (simp add: path_row_def)

lemma length_path_row: "length (path_row q p) = length q + 1"
  by (induction p rule: rev_induct) (simp_all add: path_row_Nil path_row_snoc length_next_row)

lemma path_row_nth: "j \<le> length q \<Longrightarrow> path_row q p ! j = lev p q (length p) j"
proof (induction p arbitrary: j rule: rev_induct)
  case Nil
  have "[0..<length q + 1] ! j = j" using Nil by (metis add_0 less_Suc_eq_le nth_upt Suc_eq_plus1)
  then show ?case by (simp add: path_row_Nil)
next
  case (snoc c p)
  show ?case using snoc.prems
  proof (induction j)
    case 0
    show ?case using snoc.IH[of 0]
      by (simp add: path_row_snoc next_row_nth_0 lev_0_right)
  next
    case (Suc j)
    then have j: "j < length q" by simp
    from Suc have IHj: "path_row q (p @ [c]) ! j = lev (p @ [c]) q (length (p @ [c])) j" by simp
    have a: "path_row q p ! Suc j = lev (p @ [c]) q (length p) (Suc j)"
      using snoc.IH[of "Suc j"] Suc.prems by (simp add: lev_append)
    have b: "path_row q p ! j = lev (p @ [c]) q (length p) j"
      using snoc.IH[of j] j by (simp add: lev_append)
    show ?case
      using IHj a b next_row_nth_Suc[OF j, of c "path_row q p"]
      by (auto simp: path_row_snoc min.commute min.left_commute)
  qed
qed

lemma row_cost_edit_distance: "row_cost p q = edit_distance p q"
proof -
  have "path_row q p \<noteq> []" using length_path_row[of q p] by auto
  then have "last (path_row q p) = path_row q p ! length q"
    using length_path_row[of q p] by (simp add: last_conv_nth)
  then show ?thesis by (simp add: row_cost_def edit_distance_def path_row_nth)
qed

lemma min_list_le_nth: "i < length xs \<Longrightarrow> min_list xs \<le> (xs ! i :: nat)"
  by (metis List.finite_set Min_le length_greater_0_conv min_list_Min nth_mem not_less_zero gr_implies_not0 list.size(3))

lemma min_list_ge: "xs \<noteq> [] \<Longrightarrow> (\<And>x. x \<in> set xs \<Longrightarrow> m \<le> x) \<Longrightarrow> m \<le> (min_list xs :: nat)"
  by (simp add: min_list_Min)

lemma min_list_le_last: "xs \<noteq> [] \<Longrightarrow> min_list xs \<le> (last xs :: nat)"
  by (simp add: min_list_Min)

lemma next_row_cells_ge:
  assumes len: "length prev = length q + 1" and j: "j \<le> length q"
  shows "min_list prev \<le> next_row c q prev ! j"
  using j
proof (induction j)
  case 0
  have "min_list prev \<le> prev ! 0" using len by (intro min_list_le_nth) simp
  then show ?case by (simp add: next_row_nth_0)
next
  case (Suc j)
  then have j: "j < length q" by simp
  have 1: "min_list prev \<le> prev ! Suc j" using len j by (intro min_list_le_nth) simp
  have 2: "min_list prev \<le> prev ! j" using len j by (intro min_list_le_nth) simp
  have 3: "min_list prev \<le> next_row c q prev ! j" using Suc by simp
  show ?case using 1 2 3 by (simp add: next_row_nth_Suc[OF j])
qed

lemma min_list_next_row:
  assumes "length prev = length q + 1"
  shows "min_list prev \<le> min_list (next_row c q prev)"
proof (rule min_list_ge)
  show "next_row c q prev \<noteq> []" using length_next_row[of c q prev] by auto
next
  fix x assume "x \<in> set (next_row c q prev)"
  then obtain j where "j < length (next_row c q prev)" "x = next_row c q prev ! j"
    by (auto simp: in_set_conv_nth)
  then show "min_list prev \<le> x"
    using next_row_cells_ge[OF assms, of j c] by (simp add: length_next_row)
qed

lemma min_list_path_row_append: "min_list (path_row q p) \<le> min_list (path_row q (p @ s))"
proof (induction s rule: rev_induct)
  case Nil
  then show ?case by simp
next
  case (snoc c s)
  have "min_list (path_row q (p @ s)) \<le> min_list (path_row q ((p @ s) @ [c]))"
    unfolding path_row_snoc by (rule min_list_next_row) (simp add: length_path_row)
  with snoc show ?case by simp
qed

lemma row_cost_ge_min: "min_list (path_row q p) \<le> row_cost (p @ s) q"
proof -
  have "path_row q (p @ s) \<noteq> []" using length_path_row[of q "p @ s"] by auto
  then have "min_list (path_row q (p @ s)) \<le> row_cost (p @ s) q"
    unfolding row_cost_def by (rule min_list_le_last)
  with min_list_path_row_append[of q p s] show ?thesis by simp
qed

lemma wf_map_of_iff:
  "wf_node p node \<Longrightarrow> map_of (children node) c = Some ch \<longleftrightarrow> (c, ch) \<in> set (children node)"
  by (cases node) simp

lemma hits_iff:
  "(n, c) \<in> hits node p q k \<longleftrightarrow>
     (\<exists>s. find_node node s = Some n \<and> c = row_cost (p @ s) q \<and> c \<le> k)"
  by (auto simp: hits_def)

lemma hits_unfold:
  assumes "wf_node p node"
  shows "hits node p q k =
           (if row_cost p q \<le> k then {(node, row_cost p q)} else {}) \<union>
           (\<Union>(c, ch) \<in> set (children node). hits ch (p @ [c]) q k)" (is "?L = ?A \<union> ?R")
proof (rule set_eqI, clarify)
  fix n c
  show "(n, c) \<in> ?L \<longleftrightarrow> (n, c) \<in> ?A \<union> ?R"
  proof
    assume "(n, c) \<in> ?L"
    then obtain s where s: "find_node node s = Some n" "c = row_cost (p @ s) q" "c \<le> k"
      by (auto simp: hits_iff)
    show "(n, c) \<in> ?A \<union> ?R"
    proof (cases s)
      case Nil
      with s show ?thesis by simp
    next
      case (Cons a r)
      with s(1) obtain ch where ch: "map_of (children node) a = Some ch" "find_node ch r = Some n"
        by (auto split: option.splits)
      from ch(1) have "(a, ch) \<in> set (children node)" by (rule map_of_SomeD)
      moreover have "(n, c) \<in> hits ch (p @ [a]) q k"
        using ch(2) s(2,3) Cons by (auto simp: hits_iff)
      ultimately show ?thesis by blast
    qed
  next
    assume "(n, c) \<in> ?A \<union> ?R"
    then consider "(n, c) \<in> ?A" | "(n, c) \<in> ?R" by blast
    then show "(n, c) \<in> ?L"
    proof cases
      case 1
      then have "find_node node [] = Some n \<and> c = row_cost (p @ []) q \<and> c \<le> k"
        by (auto split: if_splits)
      then show ?thesis unfolding hits_iff by blast
    next
      case 2
      then obtain a ch where a: "(a, ch) \<in> set (children node)" "(n, c) \<in> hits ch (p @ [a]) q k"
        by blast
      from a(2) obtain r where r: "find_node ch r = Some n" "c = row_cost ((p @ [a]) @ r) q" "c \<le> k"
        by (auto simp: hits_iff)
      from a(1) have "map_of (children node) a = Some ch"
        using wf_map_of_iff[OF assms] by simp
      with r have "find_node node (a # r) = Some n \<and> c = row_cost (p @ a # r) q \<and> c \<le> k"
        by simp
      then show ?thesis unfolding hits_iff by blast
    qed
  qed
qed

lemma hits_pruned:
  assumes "k < min_list (path_row q p)"
  shows "hits node p q k = {}"
proof -
  have "k < row_cost (p @ s) q" for s
    using assms row_cost_ge_min[of q p s] by simp
  then have "\<not> row_cost (p @ s) q \<le> k" for s
    by (simp add: not_le)
  then show ?thesis by (auto simp: hits_def)
qed

lemma children_hits_iff:
  assumes "wf_node p node"
  shows "(n, c) \<in> (\<Union>(a, ch) \<in> set (children node). hits ch (p @ [a]) q k) \<longleftrightarrow>
         (\<exists>s. s \<noteq> [] \<and> find_node node s = Some n \<and> c = row_cost (p @ s) q \<and> c \<le> k)"
    (is "?R \<longleftrightarrow> ?S")
proof
  assume ?R
  then obtain a ch where a: "(a, ch) \<in> set (children node)" "(n, c) \<in> hits ch (p @ [a]) q k"
    by blast
  from a(2) obtain r where r: "find_node ch r = Some n" "c = row_cost ((p @ [a]) @ r) q" "c \<le> k"
    by (auto simp: hits_iff)
  from a(1) have "map_of (children node) a = Some ch"
    using wf_map_of_iff[OF assms] by simp
  with r have "a # r \<noteq> [] \<and> find_node node (a # r) = Some n \<and> c = row_cost (p @ a # r) q \<and> c \<le> k"
    by simp
  then show ?S by blast
next
  assume ?S
  then obtain s where s: "s \<noteq> []" "find_node node s = Some n" "c = row_cost (p @ s) q" "c \<le> k"
    by blast
  from s(1) obtain a r where Cons: "s = a # r" by (cases s) auto
  with s(2) obtain ch where ch: "map_of (children node) a = Some ch" "find_node ch r = Some n"
    by (auto split: option.splits)
  from ch(1) have "(a, ch) \<in> set (children node)" by (rule map_of_SomeD)
  moreover have "(n, c) \<in> hits ch (p @ [a]) q k"
    using ch(2) s(3,4) Cons by (auto simp: hits_iff)
  ultimately show ?R by blast
qed

declare searchRecursive.simps [simp del]

lemma foldl_search_set:
  assumes "\<And>l ch res. (l, ch) \<in> set cs \<Longrightarrow>
             set (searchRecursive ch l q cur res k) = set res \<union> H l ch"
  shows "set (foldl (\<lambda>res (l, child). searchRecursive child l q cur res k) res0 cs) =
         set res0 \<union> (\<Union>(l, ch) \<in> set cs. H l ch)"
  using assms
proof (induction cs arbitrary: res0)
  case Nil
  then show ?case by simp
next
  case (Cons x cs)
  obtain l ch where x: "x = (l, ch)" by (cases x)
  have 1: "set (searchRecursive ch l q cur res0 k) = set res0 \<union> H l ch"
    using Cons.prems[of l ch res0] x by simp
  have 2: "set (foldl (\<lambda>res (l, child). searchRecursive child l q cur res k)
                 (searchRecursive ch l q cur res0 k) cs) =
           set (searchRecursive ch l q cur res0 k) \<union> (\<Union>(l, ch) \<in> set cs. H l ch)"
    by (rule Cons.IH) (use Cons.prems in auto)
  show ?case using 1 2 x by auto
qed

lemma searchRecursive_set:
  "wf_node (p0 @ [c]) node \<Longrightarrow> prev = path_row q p0 \<Longrightarrow>
   set (searchRecursive node c q prev res k) = set res \<union> hits node (p0 @ [c]) q k"
proof (induction node c q prev res k arbitrary: p0 rule: searchRecursive.induct)
  case (1 node letter query previousRow results maxCost)
  let ?p = "p0 @ [letter]"
  let ?cur = "next_row letter query previousRow"
  let ?res1 = "if last ?cur \<le> maxCost then results @ [(node, last ?cur)] else results"
  have cur: "?cur = path_row query ?p" using 1(3) by (simp add: path_row_snoc)
  have lastc: "last ?cur = row_cost ?p query" by (simp add: cur row_cost_def)
  have wf: "wf_node ?p node" by (rule 1(2))
  have res1: "set ?res1 = set results \<union> (if row_cost ?p query \<le> maxCost then {(node, row_cost ?p query)} else {})"
    by (simp add: lastc)
  show ?case
  proof (cases "min_list ?cur \<le> maxCost")
    case True
    have kids: "set (searchRecursive ch l query ?cur res maxCost) = set res \<union> hits ch (?p @ [l]) query maxCost"
      if "(l, ch) \<in> set (children node)" for l ch res
    proof (rule 1(1)[OF refl refl True _ _ _ cur])
      show "(l, ch) \<in> set (children node)" by (rule that)
      show "(l, ch) = (l, ch)" by simp
      from wf that show "wf_node (?p @ [l]) ch"
        by (cases node) auto
    qed
    have "set (searchRecursive node letter query previousRow results maxCost) =
          set (foldl (\<lambda>res (l, child). searchRecursive child l query ?cur res maxCost) ?res1 (children node))"
      using True by (subst searchRecursive.simps) (simp add: Let_def)
    also have "\<dots> = set ?res1 \<union> (\<Union>(l, ch) \<in> set (children node). hits ch (?p @ [l]) query maxCost)"
      by (rule foldl_search_set) (rule kids)
    also have "\<dots> = set results \<union> hits node ?p query maxCost"
      unfolding res1 hits_unfold[OF wf] by blast
    finally show ?thesis .
  next
    case False
    then have pr: "maxCost < min_list (path_row query ?p)" by (simp add: cur)
    have "?cur \<noteq> []" using length_next_row[of letter query previousRow] by auto
    then have "min_list ?cur \<le> last ?cur" by (rule min_list_le_last)
    with False have nl: "\<not> last ?cur \<le> maxCost" by simp
    have "searchRecursive node letter query previousRow results maxCost = results"
      using False nl by (subst searchRecursive.simps) (simp add: Let_def)
    then show ?thesis by (simp add: hits_pruned[OF pr])
  qed
qed

lemma search_results_iff:
  assumes "wf_node [] (trie t)"
  shows "(n, c) \<in> set (search_results t q k) \<longleftrightarrow>
         (\<exists>s. s \<noteq> [] \<and> find_node (trie t) s = Some n \<and> c = row_cost s q \<and> c \<le> k)"
proof -
  have kids: "set (searchRecursive ch l q [0..<length q + 1] res k) = set res \<union> hits ch ([] @ [l]) q k"
    if "(l, ch) \<in> set (children (trie t))" for l ch res
  proof (rule searchRecursive_set)
    from assms that show "wf_node ([] @ [l]) ch" by (cases "trie t") auto
    show "[0..<length q + 1] = path_row q []" by (simp add: path_row_Nil)
  qed
  have "set (search_results t q k) =
        set [] \<union> (\<Union>(l, ch) \<in> set (children (trie t)). hits ch ([] @ [l]) q k)"
    unfolding search_results_def by (rule foldl_search_set) (rule kids)
  then show ?thesis using children_hits_iff[OF assms, of n c q k] by simp
qed

lemma wf_find_node_word:
  "wf_node p node \<Longrightarrow> find_node node s = Some n \<Longrightarrow> word n = Some w \<Longrightarrow> w = p @ s"
  using wf_end_word[of p node s] by (simp add: end_word_def)

lemma word_case_iff:
  "(w, c) \<in> set (case word n of None \<Rightarrow> [] | Some w' \<Rightarrow> [(w', v)]) \<longleftrightarrow> word n = Some w \<and> c = v"
  by (cases "word n") auto

lemma search_correction_results:
  "(w, c) \<in> set (search_correction t q k) \<longleftrightarrow>
   (\<exists>n. (n, c) \<in> set (search_results t q k) \<and> word n = Some w)"
proof -
  have "(w, c) \<in> set (search_correction t q k) \<longleftrightarrow>
        (\<exists>x \<in> set (search_results t q k). Some w = word (fst x) \<and> c = snd x)"
    by (simp add: search_correction_def case_prod_beta word_case_iff)
  also have "\<dots> \<longleftrightarrow> (\<exists>n. (n, c) \<in> set (search_results t q k) \<and> word n = Some w)"
    by force
  finally show ?thesis .
qed

lemma search_correction_iff:
  assumes "trie_inv t"
  shows "(w, c) \<in> set (search_correction t q k) \<longleftrightarrow>
         w \<noteq> [] \<and> w \<in> set (words t) \<and> c = row_cost w q \<and> c \<le> k" (is "?L \<longleftrightarrow> ?R")
proof
  from assms have wf: "wf_node [] (trie t)" by (simp add: trie_inv_def)
  from assms have ws: "set (words t) = {w. end_word (trie t) w \<noteq> None}" by (simp add: trie_inv_def)
  {
    assume ?L
    then obtain n where n: "(n, c) \<in> set (search_results t q k)" "word n = Some w"
      by (auto simp: search_correction_results)
    from n(1) obtain s where s: "s \<noteq> []" "find_node (trie t) s = Some n" "c = row_cost s q" "c \<le> k"
      by (auto simp: search_results_iff[OF wf])
    from wf_find_node_word[OF wf s(2) n(2)] have "w = s" by simp
    moreover have "end_word (trie t) s \<noteq> None" using s(2) n(2) by (simp add: end_word_def)
    ultimately show ?R using s ws by simp
  }
  {
    assume r: ?R
    then have "end_word (trie t) w \<noteq> None" using ws by simp
    then obtain n u where n: "find_node (trie t) w = Some n" "word n = Some u"
      by (auto simp: end_word_def split: option.splits)
    from r n(1) have "(n, c) \<in> set (search_results t q k)"
      unfolding search_results_iff[OF wf] by blast
    moreover from wf_find_node_word[OF wf n] have "word n = Some w" using n(2) by simp
    ultimately show ?L unfolding search_correction_results by blast
  }
qed

declare collect.simps [simp del]

lemma node_words_unfold:
  "node_words n = (case word n of None \<Rightarrow> {} | Some x \<Rightarrow> {x}) \<union>
                  (\<Union>ch \<in> set (map snd (children n)). node_words ch)"
  by (cases n) auto

lemma collect_map_of:
  "map_of (collect S cost tot) w =
     (if w \<in> (\<Union>n \<in> set S. node_words n)
      then Some (case map_of tot w of None \<Rightarrow> cost | Some c \<Rightarrow> min c cost)
      else map_of tot w)"
proof (induction S cost tot rule: collect.induct)
  case (1 S cost tot)
  show ?case
  proof (cases "S = []")
    case True
    then show ?thesis by (subst collect.simps) simp
  next
    case False
    define n where "n = last S"
    define S1 where "S1 = butlast S"
    define tot1 where "tot1 =
      (case word n of None \<Rightarrow> tot
       | Some w \<Rightarrow> if (case map_of tot w of None \<Rightarrow> True | Some c \<Rightarrow> c > cost)
                   then AList.update w cost tot else tot)"
    have S: "S = S1 @ [n]" using False by (simp add: S1_def n_def)
    have step: "collect S cost tot = collect (S1 @ map snd (children n)) cost tot1"
      using False by (subst collect.simps) (simp add: Let_def n_def S1_def tot1_def)
    have IH: "map_of (collect (S1 @ map snd (children n)) cost tot1) w =
       (if w \<in> (\<Union>n \<in> set (S1 @ map snd (children n)). node_words n)
        then Some (case map_of tot1 w of None \<Rightarrow> cost | Some c \<Rightarrow> min c cost)
        else map_of tot1 w)"
      using 1[OF False n_def S1_def tot1_def] .
    have t1: "map_of tot1 w =
       (if word n = Some w
        then Some (case map_of tot w of None \<Rightarrow> cost | Some c \<Rightarrow> min c cost)
        else map_of tot w)"
      by (auto simp: tot1_def update_conv' min_def split: option.splits)
    have U: "(\<Union>n \<in> set S. node_words n) =
             (case word n of None \<Rightarrow> {} | Some x \<Rightarrow> {x}) \<union>
             (\<Union>n \<in> set (S1 @ map snd (children n)). node_words n)"
      unfolding S using node_words_unfold[of n] by auto
    show ?thesis
      unfolding step IH t1 U
      by (auto split: option.splits)
  qed
qed

lemma collect_distinct:
  "distinct (map fst tot) \<Longrightarrow> distinct (map fst (collect S cost tot))"
proof (induction S cost tot rule: collect.induct)
  case (1 S cost tot)
  show ?case
  proof (cases "S = []")
    case True
    then show ?thesis using 1(2) by (subst collect.simps) simp
  next
    case False
    define n where "n = last S"
    define S1 where "S1 = butlast S"
    define tot1 where "tot1 =
      (case word n of None \<Rightarrow> tot
       | Some w \<Rightarrow> if (case map_of tot w of None \<Rightarrow> True | Some c \<Rightarrow> c > cost)
                   then AList.update w cost tot else tot)"
    have step: "collect S cost tot = collect (S1 @ map snd (children n)) cost tot1"
      using False by (subst collect.simps) (simp add: Let_def n_def S1_def tot1_def)
    have "distinct (map fst tot1)"
      using 1(2) by (auto simp: tot1_def distinct_update split: option.splits)
    from 1(1)[OF False n_def S1_def tot1_def this] show ?thesis
      by (simp add: step)
  qed
qed

lemma find_node_append:
  "find_node node (s @ s') = (case find_node node s of None \<Rightarrow> None | Some n \<Rightarrow> find_node n s')"
  by (induction s arbitrary: node) (auto split: option.splits)

lemma wf_find_node: "wf_node p node \<Longrightarrow> find_node node s = Some n \<Longrightarrow> wf_node (p @ s) n"
proof (induction s arbitrary: p node)
  case Nil
  then show ?case by simp
next
  case (Cons c s)
  from Cons.prems(2) obtain ch where ch: "map_of (children node) c = Some ch" "find_node ch s = Some n"
    by (auto split: option.splits)
  from wf_node_child[OF Cons.prems(1) ch(1)] have "wf_node (p @ [c]) ch" .
  from Cons.IH[OF this ch(2)] show ?case by simp
qed

lemma end_word_in_node_words: "end_word node s = Some w \<Longrightarrow> w \<in> node_words node"
proof (induction s arbitrary: node)
  case Nil
  then show ?case by (cases node) (simp add: end_word_Nil)
next
  case (Cons c s)
  from Cons.prems obtain ch where ch: "map_of (children node) c = Some ch" "end_word ch s = Some w"
    by (auto simp: end_word_Cons split: option.splits)
  from Cons.IH[OF ch(2)] have "w \<in> node_words ch" .
  moreover from ch(1) have "(c, ch) \<in> set (children node)" by (rule map_of_SomeD)
  ultimately show ?case by (cases node) auto
qed

lemma node_words_end_word:
  "wf_node p node \<Longrightarrow> w \<in> node_words node \<Longrightarrow> \<exists>s. end_word node s = Some w"
proof (induction p node rule: wf_node.induct)
  case (1 p x v cs)
  from 1(3) consider "x = Some w" | c ch where "(c, ch) \<in> set cs" "w \<in> node_words ch"
    by (auto split: option.splits)
  then show ?case
  proof cases
    case 1
    then have "end_word (TrieNode x v cs) [] = Some w" by (simp add: end_word_Nil)
    then show ?thesis by blast
  next
    case 2
    from 1(2) 2(1) have wfc: "wf_node (p @ [c]) ch" by auto
    from 1(1)[OF 2(1) refl wfc 2(2)] obtain s where s: "end_word ch s = Some w" by blast
    from 1(2) 2(1) have "map_of cs c = Some ch" by simp
    with s have "end_word (TrieNode x v cs) (c # s) = Some w" by (simp add: end_word_Cons)
    then show ?thesis by blast
  qed
qed

lemma finite_costs_of: "finite (costs_of rs w)"
proof -
  have "costs_of rs w \<subseteq> snd ` set rs" by (force simp: costs_of_def)
  then show ?thesis by (rule finite_subset) simp
qed

lemma costs_of_snoc:
  "costs_of (rs @ [(n, c)]) w = costs_of rs w \<union> (if w \<in> node_words n then {c} else {})"
  by (auto simp: costs_of_def)

lemma prediction_fold:
  "map_of (foldl (\<lambda>tot (node, cost). collect [node] cost tot) [] rs) w =
     (if costs_of rs w = {} then None else Some (Min (costs_of rs w))) \<and>
   distinct (map fst (foldl (\<lambda>tot (node, cost). collect [node] cost tot) [] rs))"
proof (induction rs rule: rev_induct)
  case Nil
  then show ?case by (simp add: costs_of_def)
next
  case (snoc x rs)
  obtain n c where x: "x = (n, c)" by (cases x)
  let ?tot = "foldl (\<lambda>tot (node, cost). collect [node] cost tot) [] rs"
  have step: "foldl (\<lambda>tot (node, cost). collect [node] cost tot) [] (rs @ [x]) = collect [n] c ?tot"
    by (simp add: x)
  have d: "distinct (map fst (collect [n] c ?tot))"
    using snoc by (intro collect_distinct) simp
  have m: "map_of (collect [n] c ?tot) w =
     (if w \<in> node_words n
      then Some (case map_of ?tot w of None \<Rightarrow> c | Some c0 \<Rightarrow> min c0 c)
      else map_of ?tot w)"
    by (simp add: collect_map_of)
  have old: "map_of ?tot w = (if costs_of rs w = {} then None else Some (Min (costs_of rs w)))"
    using snoc by simp
  have "map_of (collect [n] c ?tot) w =
     (if costs_of (rs @ [(n, c)]) w = {} then None else Some (Min (costs_of (rs @ [(n, c)]) w)))"
  proof (cases "w \<in> node_words n")
    case False
    then show ?thesis unfolding m old costs_of_snoc by simp
  next
    case True
    show ?thesis
    proof (cases "costs_of rs w = {}")
      case True
      with \<open>w \<in> node_words n\<close> show ?thesis unfolding m old costs_of_snoc by simp
    next
      case False
      have "Min (insert c (costs_of rs w)) = min c (Min (costs_of rs w))"
        using False finite_costs_of by (rule_tac Min_insert) auto
      with False \<open>w \<in> node_words n\<close> show ?thesis
        unfolding m old costs_of_snoc by (simp add: min.commute)
    qed
  qed
  with d show ?case unfolding step x by simp
qed

lemma search_prediction_iff:
  "(w, c) \<in> set (search_prediction t q k) \<longleftrightarrow>
     costs_of (search_results t q k) w \<noteq> {} \<and> c = Min (costs_of (search_results t q k) w)"
proof -
  let ?al = "search_prediction t q k"
  have d: "distinct (map fst ?al)"
    and m: "map_of ?al w =
      (if costs_of (search_results t q k) w = {} then None
       else Some (Min (costs_of (search_results t q k) w)))"
    using prediction_fold[of "search_results t q k" w] by (simp_all add: search_prediction_def)
  have "(w, c) \<in> set ?al \<longleftrightarrow> map_of ?al w = Some c"
    using d by simp
  then show ?thesis unfolding m by auto
qed

lemma costs_of_search_results:
  assumes "trie_inv t"
  shows "costs_of (search_results t q k) w =
           (if w \<in> set (words t)
            then {row_cost p q | p. p \<noteq> [] \<and> prefix p w \<and> row_cost p q \<le> k}
            else {})" (is "?L = ?R")
proof -
  from assms have wf: "wf_node [] (trie t)" by (simp add: trie_inv_def)
  from assms have ws: "set (words t) = {w. end_word (trie t) w \<noteq> None}" by (simp add: trie_inv_def)
  have 1: "c \<in> ?R" if "c \<in> ?L" for c
  proof -
    from that obtain n where n: "(n, c) \<in> set (search_results t q k)" "w \<in> node_words n"
      by (auto simp: costs_of_def)
    from n(1) obtain s where s: "s \<noteq> []" "find_node (trie t) s = Some n" "c = row_cost s q" "c \<le> k"
      by (auto simp: search_results_iff[OF wf])
    from wf_find_node[OF wf s(2)] have wfn: "wf_node s n" by simp
    from node_words_end_word[OF wfn n(2)] obtain s' where s': "end_word n s' = Some w" by blast
    from wf_end_word[OF wfn, of s'] s' have w: "w = s @ s'" by simp
    have "end_word (trie t) (s @ s') = Some w"
      using s(2) s' by (simp add: end_word_def find_node_append)
    then have "w \<in> set (words t)" using ws w by simp
    moreover have "prefix s w" using w by simp
    ultimately show ?thesis using s by auto
  qed
  have 2: "c \<in> ?L" if "c \<in> ?R" for c
  proof -
    from that have win: "w \<in> set (words t)" by (auto split: if_splits)
    with that obtain p where p: "p \<noteq> []" "prefix p w" "c = row_cost p q" "c \<le> k" by auto
    from p(2) obtain s' where w: "w = p @ s'" by (auto simp: prefix_def)
    from win ws have "end_word (trie t) w \<noteq> None" by simp
    with wf_end_word[OF wf, of w] have ew: "end_word (trie t) (p @ s') = Some w" using w by auto
    then obtain n where n: "find_node (trie t) p = Some n" "end_word n s' = Some w"
      by (auto simp: end_word_def find_node_append split: option.splits)
    from n(1) p have "(n, c) \<in> set (search_results t q k)"
      unfolding search_results_iff[OF wf] by blast
    moreover from end_word_in_node_words[OF n(2)] have "w \<in> node_words n" .
    ultimately show ?thesis by (auto simp: costs_of_def)
  qed
  from 1 2 show ?thesis by blast
qed

lemma set_matched_prefix_costs:
  "set (matched_prefix_costs w q k) = {row_cost p q | p. p \<noteq> [] \<and> prefix p w \<and> row_cost p q \<le> k}"
proof -
  have "set (tl (prefixes w)) = {p. p \<noteq> [] \<and> prefix p w}"
    by (cases w) (auto simp: prefix_Cons)
  then show ?thesis by (auto simp: matched_prefix_costs_def)
qed

section \<open>Lemmas on the keyboard engine\<close>

lemma getitem_Nil: "getitem t [] = val (trie t)"
  by (simp add: getitem_def)

lemma end_val_Nil: "end_val node [] = val node"
  by (simp add: end_val_def)

lemma end_val_Cons:
  "end_val node (c # r) =
     (case map_of (children node) c of None \<Rightarrow> None | Some ch \<Rightarrow> end_val ch r)"
  by (simp add: end_val_def split: option.splits)

lemma end_val_new_node: "end_val new_node r = None"
  by (cases r) (simp_all add: end_val_Nil end_val_Cons new_node_def)

lemma end_val_set_node:
  "end_val (set_node node s w v) s' = (if s' = s then Some v else end_val node s')"
proof (induction s arbitrary: node s')
  case Nil
  then show ?case by (cases s') (auto simp: end_val_Nil end_val_Cons)
next
  case (Cons c s)
  show ?case
  proof (cases s')
    case Nil
    then show ?thesis by (simp add: end_val_Nil Let_def)
  next
    case [simp]: (Cons c' r)
    show ?thesis
    proof (cases "c' = c")
      case False
      then show ?thesis by (simp add: end_val_Cons Let_def update_conv')
    next
      case True
      then show ?thesis
        by (simp add: end_val_Cons Let_def update_conv' Cons.IH end_val_new_node split: option.splits)
    qed
  qed
qed

lemma getitem_setitem: "getitem (setitem t w v) w' = (if w' = w then Some v else getitem t w')"
  using end_val_set_node[of "trie t" w w v w'] by (simp add: getitem_def setitem_def end_val_def)

lemma getitem_new_trie: "getitem new_trie w = None"
  using end_val_new_node[of w] by (simp add: getitem_def new_trie_def end_val_def)

lemma getitem_build_in_ops: "getitem (build ops) w = Some v \<Longrightarrow> (w, v) \<in> set ops"
proof (induction ops arbitrary: v rule: rev_induct)
  case Nil
  then show ?case by (simp add: build_def getitem_new_trie)
next
  case (snoc x ops)
  obtain w' v' where x: "x = (w', v')" by (cases x)
  from snoc.prems have "getitem (setitem (build ops) w' v') w = Some v"
    by (simp add: x build_snoc)
  then show ?case using snoc.IH x by (auto simp: getitem_setitem split: if_splits)
qed

lemma wf_word_val:
  "wf_node p node \<Longrightarrow> find_node node s = Some n \<Longrightarrow> (word n = None) = (val n = None)"
proof -
  assume "wf_node p node" "find_node node s = Some n"
  then have "wf_node (p @ s) n" by (rule wf_find_node)
  then show ?thesis by (cases n) auto
qed

lemma words_getitem:
  assumes "trie_inv t" "w \<in> set (words t)"
  shows "\<exists>v. getitem t w = Some v"
proof -
  from assms have wf: "wf_node [] (trie t)" and "end_word (trie t) w \<noteq> None"
    by (auto simp: trie_inv_def)
  then obtain n where n: "find_node (trie t) w = Some n" "word n \<noteq> None"
    by (auto simp: end_word_def split: option.splits)
  from wf_word_val[OF wf n(1)] n(2) have "val n \<noteq> None" by simp
  with n(1) show ?thesis by (auto simp: getitem_def)
qed

lemma mset_sort_reverse: "mset (sort_reverse xs) = mset xs"
  by (simp add: sort_reverse_def)

lemma set_sort_reverse: "set (sort_reverse xs) = set xs"
  by (simp add: sort_reverse_def)

lemma sorted_sort_reverse: "sorted_wrt (\<lambda>a b. snd b \<le> snd a) (sort_reverse xs)"
proof -
  have "sorted (map snd (sort_key snd (rev xs)))" by (rule sorted_sort_key)
  then have "sorted_wrt (\<lambda>a b. snd a \<le> snd b) (sort_key snd (rev xs))"
    by (simp add: sorted_map)
  then show ?thesis by (simp add: sort_reverse_def sorted_wrt_rev)
qed

lemma score_all_ok:
  assumes "\<forall>r \<in> set rs. \<exists>p. get_ngram_probability st (fst r) prev_word = Inr p"
  shows "\<exists>cands. score_all st prev_word rs = Inr cands \<and> scored st prev_word cands rs"
  using assms
proof (induction rs)
  case Nil
  then show ?case by (simp add: scored_def)
next
  case (Cons r rs)
  obtain u d where r: "r = (u, d)" by (cases r)
  from Cons.prems r obtain p where p: "get_ngram_probability st u prev_word = Inr p"
    by auto
  from Cons.IH Cons.prems obtain cands where
    c: "score_all st prev_word rs = Inr cands" "scored st prev_word cands rs"
    by auto
  have "score_all st prev_word (r # rs) = Inr ((u, 0.001 ^ d * p) # cands)"
    by (simp add: r p c err_bind_def)
  moreover have "scored st prev_word ((u, 0.001 ^ d * p) # cands) (r # rs)"
    using c(2) p by (simp add: scored_def r)
  ultimately show ?case by blast
qed

lemma get_ngram_probability_Inr:
  assumes "kb_words st = build ops"
    and "w \<in> set (words (build ops))"
    and "Mapping.lookup_default 0 (user_unigrams st) prev_word
           + int (Mapping.size (user_unigrams st)) \<noteq> 0"
    and "user_nograms st + int (Mapping.size (user_unigrams st)) \<noteq> 0"
  shows "\<exists>path tot freq.
           getitem (kb_words st) w = Some (path, tot, freq) \<and>
           get_ngram_probability st w prev_word =
             Inr (0.4 * (real_of_int (Mapping.lookup_default 0 (user_bigrams st) (prev_word, w)) + 1)
                      / (real_of_int (Mapping.lookup_default 0 (user_unigrams st) prev_word)
                         + real (Mapping.size (user_unigrams st)))
                  + 0.1 * (real_of_int (Mapping.lookup_default 0 (user_unigrams st) w) + 1)
                      / (real_of_int (user_nograms st) + real (Mapping.size (user_unigrams st)))
                  + 0.5 * freq)"
proof -
  from words_getitem[OF trie_inv_build assms(2)] obtain e where "getitem (build ops) w = Some e"
    by blast
  then obtain path tot freq where e: "getitem (kb_words st) w = Some (path, tot, freq)"
    using assms(1) by (cases e) auto
  show ?thesis
    using assms(3,4) e by (simp add: get_ngram_probability_def Let_def)
qed

lemma search_prediction_words:
  assumes "trie_inv t" "(w, c) \<in> set (search_prediction t q k)"
  shows "w \<in> set (words t)"
proof -
  from assms(2) have "costs_of (search_results t q k) w \<noteq> {}"
    by (simp add: search_prediction_iff)
  then show ?thesis by (auto simp: costs_of_search_results[OF assms(1)] split: if_splits)
qed

lemma candidates_of_results:
  assumes "kb_words st = build ops"
    and "Mapping.lookup_default 0 (user_unigrams st) prev_word
           + int (Mapping.size (user_unigrams st)) \<noteq> 0"
    and "user_nograms st + int (Mapping.size (user_unigrams st)) \<noteq> 0"
    and "fst ` set rs \<subseteq> set (words (build ops))"
  shows "\<exists>cands res. scored st prev_word cands rs \<and>
           err_bind (score_all st prev_word rs) (\<lambda>candidates. Inr (sort_reverse candidates)) = Inr res \<and>
           mset res = mset cands \<and> sorted_wrt (\<lambda>a b. snd b \<le> snd a) res"
proof -
  have "\<exists>p. get_ngram_probability st (fst r) prev_word = Inr p" if "r \<in> set rs" for r
  proof -
    from that assms(4) have "fst r \<in> set (words (build ops))" by auto
    from get_ngram_probability_Inr[OF assms(1) this assms(2,3)] show ?thesis by blast
  qed
  then have "\<forall>r \<in> set rs. \<exists>p. get_ngram_probability st (fst r) prev_word = Inr p" by blast
  from score_all_ok[OF this] obtain cands where
    c: "score_all st prev_word rs = Inr cands" "scored st prev_word cands rs"
    by blast
  have "err_bind (score_all st prev_word rs) (\<lambda>candidates. Inr (sort_reverse candidates))
        = Inr (sort_reverse cands)"
    by (simp add: c err_bind_def)
  with c(2) mset_sort_reverse[of cands] sorted_sort_reverse[of cands] show ?thesis by blast
qed

lemma edit_distance_Nil_right: "edit_distance w [] = length w"
  by (simp add: edit_distance_def lev_0_right)

lemma scored_fst: "scored st prev_word cands rs \<Longrightarrow> map fst cands = map fst rs"
  unfolding scored_def by (induction cands rs rule: list_all2_induct) auto

lemma candidates_fst:
  assumes "scored st prev_word cands rs" "mset res = mset cands"
  shows "fst ` set res = fst ` set rs"
proof -
  from assms(2) have "set res = set cands" by (rule mset_eq_setD)
  moreover from scored_fst[OF assms(1)] have "set (map fst cands) = set (map fst rs)" by simp
  ultimately show ?thesis by simp
qed

lemma correction_words_empty_query:
  "fst ` set (search_correction (build ops) [] 2) =
     {w \<in> set (words (build ops)). w \<noteq> [] \<and> length w \<le> 2}"
proof -
  have "(w \<in> fst ` set (search_correction (build ops) [] 2)) =
        (w \<in> set (words (build ops)) \<and> w \<noteq> [] \<and> length w \<le> 2)" for w
  proof -
    have "(w \<in> fst ` set (search_correction (build ops) [] 2)) =
          (\<exists>c. (w, c) \<in> set (search_correction (build ops) [] 2))" by force
    also have "\<dots> = (w \<in> set (words (build ops)) \<and> w \<noteq> [] \<and> length w \<le> 2)"
      unfolding search_correction_iff[OF trie_inv_build]
      by (auto simp: row_cost_edit_distance edit_distance_Nil_right)
    finally show ?thesis .
  qed
  then show ?thesis by blast
qed

lemma matched_prefix_costs_empty_query: "matched_prefix_costs w [] 2 \<noteq> [] \<longleftrightarrow> w \<noteq> []"
proof
  assume "matched_prefix_costs w [] 2 \<noteq> []"
  then have "set (matched_prefix_costs w [] 2) \<noteq> {}" by simp
  then show "w \<noteq> []" unfolding set_matched_prefix_costs by auto
next
  assume "w \<noteq> []"
  then obtain a r where w: "w = a # r" by (cases w) auto
  have "row_cost [a] [] = 1" by (simp add: row_cost_edit_distance edit_distance_Nil_right)
  then have "[a] \<noteq> [] \<and> prefix [a] w \<and> row_cost [a] [] \<le> 2"
    using w by simp
  then have "row_cost [a] [] \<in> set (matched_prefix_costs w [] 2)"
    unfolding set_matched_prefix_costs by blast
  then show "matched_prefix_costs w [] 2 \<noteq> []" by auto
qed

lemma prediction_words_empty_query:
  "fst ` set (search_prediction (build ops) [] 2) = {w \<in> set (words (build ops)). w \<noteq> []}"
proof -
  have "(w \<in> fst ` set (search_prediction (build ops) [] 2)) =
        (w \<in> set (words (build ops)) \<and> w \<noteq> [])" for w
  proof -
    have "(w \<in> fst ` set (search_prediction (build ops) [] 2)) =
          (\<exists>c. (w, c) \<in> set (search_prediction (build ops) [] 2))" by force
    also have "\<dots> = (costs_of (search_results (build ops) [] 2) w \<noteq> {})"
      by (simp add: search_prediction_iff)
    also have "\<dots> = (w \<in> set (words (build ops)) \<and> matched_prefix_costs w [] 2 \<noteq> [])"
      by (simp add: costs_of_search_results[OF trie_inv_build] flip: set_matched_prefix_costs)
    finally show ?thesis by (simp add: matched_prefix_costs_empty_query)
  qed
  then show ?thesis by blast
qed

lemma candidate_matches_empty_vocabulary:
  "candidate_matches (st\<lparr>kb_words := new_trie\<rparr>) prev_word gesture = Inr []"
  by (simp add: candidate_matches_def new_trie_def err_bind_def sort_reverse_def)

lemma st1_probability: "get_ngram_probability st1 ''a'' '''' = Inr (7 / 10)"
  by (simp add: st1_def get_ngram_probability_def Mapping.size_update Mapping.lookup_default_update'
        Mapping.lookup_default_empty build_def setitem_def new_trie_def new_node_def
        getitem_def Let_def)

lemma st1_correction: "search_correction (kb_words st1) [] 2 = [(''a'', 1)]"
  by (simp add: st1_def build_def setitem_def new_trie_def new_node_def end_word_def Let_def
      search_correction_def search_results_def searchRecursive.simps next_row_def)

lemma st1_prediction: "search_prediction (kb_words st1) [] 2 = [(''a'', 1)]"
  by (simp add: st1_def build_def setitem_def new_trie_def new_node_def end_word_def Let_def
      search_prediction_def search_results_def searchRecursive.simps next_row_def collect.simps)

declare bisect_loop.simps [simp del]

lemma bisect_loop_range: "lo \<le> hi \<Longrightarrow> lo \<le> bisect_loop a x lo hi \<and> bisect_loop a x lo hi \<le> hi"
proof (induction a x lo hi rule: bisect_loop.induct)
  case (1 a x lo hi)
  show ?case
  proof (cases "lo < hi")
    case False
    then show ?thesis using 1(3) by (subst bisect_loop.simps, subst bisect_loop.simps) simp
  next
    case True
    define mid where "mid = (lo + hi) div 2"
    have m: "lo \<le> mid" "mid < hi" using True by (auto simp: mid_def)
    show ?thesis
    proof (cases "a ! mid < x")
      case lt: True
      from 1(1)[OF True mid_def lt] m
      have "mid + 1 \<le> bisect_loop a x (mid + 1) hi \<and> bisect_loop a x (mid + 1) hi \<le> hi" by simp
      moreover have "bisect_loop a x lo hi = bisect_loop a x (mid + 1) hi"
        using True lt by (subst bisect_loop.simps) (simp add: mid_def Let_def)
      ultimately show ?thesis using m by simp
    next
      case ge: False
      from 1(2)[OF True mid_def ge] m
      have "lo \<le> bisect_loop a x lo mid \<and> bisect_loop a x lo mid \<le> mid" by simp
      moreover have "bisect_loop a x lo hi = bisect_loop a x lo mid"
        using True ge by (subst bisect_loop.simps) (simp add: mid_def Let_def)
      ultimately show ?thesis using m by simp
    qed
  qed
qed

lemma bisect_left_le: "bisect_left a x \<le> length a"
  using bisect_loop_range[of 0 "length a" a x] by (simp add: bisect_left_def)

lemma cum_lengths_upto: "cum_lengths path = cum_upto path (length path)"
  by (simp add: cum_lengths_def cum_upto_def)

lemma length_cum_upto: "length (cum_upto path m) = Suc (m - 1)"
  by (induction m) (auto simp: cum_upto_def Suc_diff_le)

lemma length_cum_lengths: "path \<noteq> [] \<Longrightarrow> length (cum_lengths path) = length path"
  by (simp add: cum_lengths_upto length_cum_upto)

lemma py_nth_Inr:
  "- int (length xs) \<le> i \<Longrightarrow> i < int (length xs) \<Longrightarrow> \<exists>x. py_nth xs i = Inr x"
  by (auto simp: py_nth_def)

lemma adjust_bounds:
  "0 \<le> (j::int) \<Longrightarrow> j \<le> m - 1 \<Longrightarrow>
   - 1 \<le> (if j \<ge> m - 1 then j - 1 else j) \<and> (if j \<ge> m - 1 then j - 1 else j) \<le> m - 2"
  by auto

lemma sample_point_Inr:
  assumes "path \<noteq> []" "n \<noteq> 1"
  shows "\<exists>pt. sample_point path (cum_lengths path) n k = Inr pt"
proof -
  let ?cum = "cum_lengths path"
  let ?L = "min (real k * last ?cum / real_of_int (int n - 1)) (last ?cum)"
  let ?start = "int (bisect_left (drop 1 ?cum) ?L)"
  let ?i = "if ?start \<ge> int (length path) - 1 then ?start - 1 else ?start"
  have len: "length ?cum = length path" using assms(1) by (rule length_cum_lengths)
  have pos: "1 \<le> int (length path)" using assms(1) by (cases path) auto
  have "bisect_left (drop 1 ?cum) ?L \<le> length (drop 1 ?cum)" by (rule bisect_left_le)
  then have "?start \<le> int (length (drop 1 ?cum))" by (simp only: of_nat_le_iff)
  moreover have "int (length (drop 1 ?cum)) = int (length path) - 1"
    using len pos by simp
  ultimately have i0: "0 \<le> ?start" "?start \<le> int (length path) - 1" by linarith+
  have "- 1 \<le> ?i \<and> ?i \<le> int (length path) - 2" by (rule adjust_bounds[OF i0])
  then have i: "- 1 \<le> ?i" "?i \<le> int (length path) - 2" by blast+
  from i pos obtain c1 where c1: "py_nth ?cum (?i + 1) = Inr c1"
    using py_nth_Inr[of ?cum "?i + 1"] len by auto
  from i pos obtain c0 where c0: "py_nth ?cum ?i = Inr c0"
    using py_nth_Inr[of ?cum ?i] len by auto
  from i pos obtain a where a: "py_nth path ?i = Inr a"
    using py_nth_Inr[of path ?i] by auto
  from i pos obtain b where b: "py_nth path (?i + 1) = Inr b"
    using py_nth_Inr[of path "?i + 1"] by auto
  have n: "int n - 1 \<noteq> 0" using assms(2) by simp
  have "sample_point path ?cum n k =
        Inr (fst a + (if c1 = c0 then 0 else (?L - c0) / (c1 - c0)) * (fst b - fst a),
             snd a + (if c1 = c0 then 0 else (?L - c0) / (c1 - c0)) * (snd b - snd a))"
    unfolding sample_point_def Let_def
    by (simp only: n if_False c1 c0 a b err_bind_def sum.case)
  then show ?thesis by blast
qed

lemma sample_loop_Inr:
  assumes "path \<noteq> []" "n \<noteq> 1"
  shows "\<exists>pts. sample_loop path (cum_lengths path) n ks points = Inr pts \<and>
               length pts = length points + length ks"
proof (induction ks arbitrary: points)
  case Nil
  then show ?case by simp
next
  case (Cons k ks)
  from sample_point_Inr[OF assms, of k] obtain pt where
    pt: "sample_point path (cum_lengths path) n k = Inr pt" by blast
  from Cons[of "points @ [pt]"] show ?case by (simp add: pt err_bind_def)
qed

lemma resample_total:
  assumes "path \<noteq> []" "n \<noteq> 1"
  shows "\<exists>pts. resample path n = Inr pts \<and> length pts = n"
  using sample_loop_Inr[OF assms, of "[0..<n]" "[]"] by (simp add: resample_def)

lemma resample_one: "resample path 1 = Inl ZeroDivisionError"
  by (simp add: resample_def sample_point_def err_bind_def)

lemma cum_upto_Suc:
  "1 \<le> m \<Longrightarrow> cum_upto path (Suc m) = cum_upto path m @ [last (cum_upto path m) + segment path m]"
  by (simp add: cum_upto_def)

lemma cum_upto_small: "m \<le> 1 \<Longrightarrow> cum_upto path m = [0]"
  by (simp add: cum_upto_def)

lemma segment_nonneg: "0 \<le> segment path i"
  by (simp add: segment_def)

lemma cum_upto_bounds:
  "0 \<le> last (cum_upto path m) \<and> (\<forall>x \<in> set (cum_upto path m). 0 \<le> x \<and> x \<le> last (cum_upto path m))"
proof (induction m)
  case 0
  then show ?case by (simp add: cum_upto_small)
next
  case (Suc m)
  show ?case
  proof (cases "1 \<le> m")
    case False
    then show ?thesis by (simp add: cum_upto_small)
  next
    case True
    from Suc segment_nonneg[of path m] show ?thesis
      by (auto simp: cum_upto_Suc[OF True] intro: order_trans add_increasing2)
  qed
qed

lemma cum_upto_zero:
  "last (cum_upto path m) = 0 \<Longrightarrow> 1 \<le> i \<Longrightarrow> i < m \<Longrightarrow> segment path i = 0"
proof (induction m)
  case 0
  then show ?case by simp
next
  case (Suc m)
  then have m: "1 \<le> m" by simp
  from Suc.prems(1) have s: "last (cum_upto path m) + segment path m = 0"
    by (simp add: cum_upto_Suc[OF m])
  from cum_upto_bounds[of path m] have "0 \<le> last (cum_upto path m)" by blast
  with s segment_nonneg[of path m] have z: "last (cum_upto path m) = 0" "segment path m = 0"
    by linarith+
  show ?case
  proof (cases "i = m")
    case True
    with z show ?thesis by simp
  next
    case False
    with Suc.prems have "i < m" by simp
    from Suc.IH[OF z(1) Suc.prems(2) this] show ?thesis .
  qed
qed

lemma segment_zero: "segment path i = 0 \<Longrightarrow> path ! i = path ! (i - 1)"
proof -
  assume "segment path i = 0"
  then have "(fst (path ! i) - fst (path ! (i - 1)))\<^sup>2 + (snd (path ! i) - snd (path ! (i - 1)))\<^sup>2 = 0"
    by (simp add: segment_def)
  then have "fst (path ! i) = fst (path ! (i - 1)) \<and> snd (path ! i) = snd (path ! (i - 1))"
    by (simp add: sum_power2_eq_zero_iff)
  then show ?thesis by (simp add: prod_eq_iff)
qed

lemma zero_length_points:
  assumes "last (cum_lengths path) = 0" "x \<in> set path"
  shows "x = hd path"
proof -
  have eq: "path ! i = path ! 0" if "i < length path" for i
    using that
  proof (induction i)
    case 0
    then show ?case by simp
  next
    case (Suc i)
    from assms(1) have "segment path (Suc i) = 0"
      using cum_upto_zero[of path "length path" "Suc i"] Suc.prems by (simp add: cum_lengths_upto)
    from segment_zero[OF this] Suc show ?case by simp
  qed
  from assms(2) obtain i where "i < length path" "x = path ! i" by (auto simp: in_set_conv_nth)
  with eq[of i] show ?thesis by (cases path) auto
qed

lemma zero_length_cum:
  assumes "last (cum_lengths path) = 0" "x \<in> set (cum_lengths path)"
  shows "x = 0"
  using assms cum_upto_bounds[of path "length path"] by (auto simp: cum_lengths_upto)

lemma py_nth_in_set: "py_nth xs i = Inr x \<Longrightarrow> x \<in> set xs"
  by (auto simp: py_nth_def split: if_splits)

lemma sample_point_zero_length:
  assumes "path \<noteq> []" "n \<noteq> 1" "last (cum_lengths path) = 0"
  shows "sample_point path (cum_lengths path) n k = Inr (hd path)"
proof -
  let ?cum = "cum_lengths path"
  let ?L = "min (real k * last ?cum / real_of_int (int n - 1)) (last ?cum)"
  let ?start = "int (bisect_left (drop 1 ?cum) ?L)"
  let ?i = "if ?start \<ge> int (length path) - 1 then ?start - 1 else ?start"
  have len: "length ?cum = length path" using assms(1) by (rule length_cum_lengths)
  have pos: "1 \<le> int (length path)" using assms(1) by (cases path) auto
  have "bisect_left (drop 1 ?cum) ?L \<le> length (drop 1 ?cum)" by (rule bisect_left_le)
  then have "?start \<le> int (length (drop 1 ?cum))" by (simp only: of_nat_le_iff)
  moreover have "int (length (drop 1 ?cum)) = int (length path) - 1"
    using len pos by simp
  ultimately have i0: "0 \<le> ?start" "?start \<le> int (length path) - 1" by linarith+
  have "- 1 \<le> ?i \<and> ?i \<le> int (length path) - 2" by (rule adjust_bounds[OF i0])
  then have i: "- 1 \<le> ?i" "?i \<le> int (length path) - 2" by blast+
  from i pos obtain c1 where c1: "py_nth ?cum (?i + 1) = Inr c1"
    using py_nth_Inr[of ?cum "?i + 1"] len by auto
  from i pos obtain c0 where c0: "py_nth ?cum ?i = Inr c0"
    using py_nth_Inr[of ?cum ?i] len by auto
  from i pos obtain a where a: "py_nth path ?i = Inr a"
    using py_nth_Inr[of path ?i] by auto
  from i pos obtain b where b: "py_nth path (?i + 1) = Inr b"
    using py_nth_Inr[of path "?i + 1"] by auto
  have n: "int n - 1 \<noteq> 0" using assms(2) by simp
  have sp: "sample_point path ?cum n k =
        Inr (fst a + (if c1 = c0 then 0 else (?L - c0) / (c1 - c0)) * (fst b - fst a),
             snd a + (if c1 = c0 then 0 else (?L - c0) / (c1 - c0)) * (snd b - snd a))"
    unfolding sample_point_def Let_def
    by (simp only: n if_False c1 c0 a b err_bind_def sum.case)
  have "c1 = 0" "c0 = 0"
    using zero_length_cum[OF assms(3)] py_nth_in_set[OF c1] py_nth_in_set[OF c0] by auto
  moreover have "a = hd path"
    using zero_length_points[OF assms(3)] py_nth_in_set[OF a] by auto
  ultimately show ?thesis unfolding sp by simp
qed

lemma sample_loop_zero_length:
  assumes "path \<noteq> []" "n \<noteq> 1" "last (cum_lengths path) = 0"
  shows "sample_loop path (cum_lengths path) n ks points =
           Inr (points @ replicate (length ks) (hd path))"
proof (induction ks arbitrary: points)
  case Nil
  then show ?case by simp
next
  case (Cons k ks)
  show ?case
    by (simp add: sample_point_zero_length[OF assms] err_bind_def Cons replicate_app_Cons_same)
qed

lemma resample_zero_length:
  assumes "path \<noteq> []" "n \<noteq> 1" "last (cum_lengths path) = 0"
  shows "resample path n = Inr (replicate n (hd path))"
  using sample_loop_zero_length[OF assms, of "[0..<n]" "[]"] by (simp add: resample_def)

lemma st0_words: "kb_words st0 = build [(''the'', ([(0, 0), (1, 0), (1, 0)], 1, 1 / 2))]"
  by (simp add: st0_def)

lemma st0_unigram_denominator:
  "Mapping.lookup_default 0 (user_unigrams st0) '''' + int (Mapping.size (user_unigrams st0)) \<noteq> 0"
  by (simp add: st0_def Mapping.size_update Mapping.lookup_default_update'
      Mapping.lookup_default_empty)

lemma st0_nogram_denominator:
  "user_nograms st0 + int (Mapping.size (user_unigrams st0)) \<noteq> 0"
  by (simp add: st0_def Mapping.size_update)

lemma st1_words: "kb_words st1 = build [(''a'', ([(0, 0)], 0, 1 / 2))]"
  by (simp add: st1_def)

lemma st1_unigram_denominator:
  "Mapping.lookup_default 0 (user_unigrams st1) '''' + int (Mapping.size (user_unigrams st1)) \<noteq> 0"
  by (simp add: st1_def Mapping.size_update Mapping.lookup_default_update'
      Mapping.lookup_default_empty)

lemma st1_nogram_denominator:
  "user_nograms st1 + int (Mapping.size (user_unigrams st1)) \<noteq> 0"
  by (simp add: st1_def Mapping.size_update)

lemma py_nth_first: "py_nth xs 0 = (if xs = [] then Inl IndexError else Inr (hd xs))"
  by (cases xs) (simp_all add: py_nth_def)

lemma py_nth_last: "py_nth xs (- 1) = (if xs = [] then Inl IndexError else Inr (last xs))"
proof (cases xs rule: rev_cases)
  case Nil
  then show ?thesis by (simp add: py_nth_def)
next
  case (snoc ys y)
  have "nat (int (length ys)) = length ys" by simp
  then show ?thesis by (simp add: py_nth_def snoc nth_append)
qed

lemma matches_loop_Cons:
  assumes "getitem (kb_words st) w = Some (pts, plen, freq)" "pts \<noteq> []" "gesture \<noteq> []"
  shows "matches_loop st prev_word gesture gl (w # ws) candidates =
     (if kept st gesture gl w
      then err_bind (gesture_distance st gesture w) (\<lambda>d.
           err_bind (get_ngram_probability st w prev_word) (\<lambda>pr.
             matches_loop st prev_word gesture gl ws (candidates @ [(w, exp (- d / 2) * pr)])))
      else matches_loop st prev_word gesture gl ws candidates)"
  using assms
  by (auto simp: kept_def py_nth_first py_nth_last err_bind_def not_le not_less)

lemma matches_loop_error:
  assumes "getitem (kb_words st) w = None \<or>
           (\<exists>pts plen freq. getitem (kb_words st) w = Some (pts, plen, freq) \<and> (pts = [] \<or> gesture = []))"
  shows "\<exists>e. matches_loop st prev_word gesture gl (w # ws) candidates = Inl e"
  using assms by (auto simp: py_nth_first err_bind_def)

lemma matches_loop_kept:
  "matches_loop st prev_word gesture gl ws candidates = Inr res \<Longrightarrow>
   map fst res = map fst candidates @ filter (kept st gesture gl) ws"
proof (induction ws arbitrary: candidates)
  case Nil
  then show ?case by simp
next
  case (Cons w ws)
  have ok: "\<exists>pts plen freq. getitem (kb_words st) w = Some (pts, plen, freq) \<and> pts \<noteq> [] \<and> gesture \<noteq> []"
  proof (rule ccontr)
    assume "\<not> ?thesis"
    then have "getitem (kb_words st) w = None \<or>
           (\<exists>pts plen freq. getitem (kb_words st) w = Some (pts, plen, freq) \<and> (pts = [] \<or> gesture = []))"
      by (cases "getitem (kb_words st) w") auto
    from matches_loop_error[OF this, of prev_word gl ws candidates] Cons.prems show False by auto
  qed
  then obtain pts plen freq where g: "getitem (kb_words st) w = Some (pts, plen, freq)"
    "pts \<noteq> []" "gesture \<noteq> []" by blast
  note step = matches_loop_Cons[OF g, of prev_word gl ws candidates]
  show ?case
  proof (cases "kept st gesture gl w")
    case False
    with Cons.prems step have "matches_loop st prev_word gesture gl ws candidates = Inr res" by simp
    from Cons.IH[OF this] False show ?thesis by simp
  next
    case True
    with Cons.prems step obtain d pr where
      "matches_loop st prev_word gesture gl ws (candidates @ [(w, exp (- d / 2) * pr)]) = Inr res"
      by (auto simp: err_bind_def split: sum.splits)
    from Cons.IH[OF this] True show ?thesis by simp
  qed
qed

lemma gesture_distance_Inr:
  assumes "getitem (kb_words st) w = Some (pts, plen, freq)" "pts \<noteq> []" "2 \<le> length gesture"
  shows "\<exists>d. gesture_distance st gesture w = Inr d"
proof -
  from assms(3) have n: "length gesture \<noteq> 1" "length gesture \<noteq> 0" by auto
  from resample_total[OF assms(2) n(1)] obtain template where
    "resample pts (length gesture) = Inr template" by blast
  then show ?thesis using assms(1) n(2)
    by (simp add: gesture_distance_def word_sample_n_def err_bind_def Let_def)
qed

lemma matches_loop_total:
  assumes "\<forall>w \<in> set ws. \<exists>pts plen freq. getitem (kb_words st) w = Some (pts, plen, freq) \<and> pts \<noteq> [] \<and>
             (\<exists>p. get_ngram_probability st w prev_word = Inr p)"
    and "2 \<le> length gesture"
  shows "\<exists>res. matches_loop st prev_word gesture gl ws candidates = Inr res"
  using assms(1)
proof (induction ws arbitrary: candidates)
  case Nil
  then show ?case by simp
next
  case (Cons w ws)
  from Cons.prems obtain pts plen freq p where g: "getitem (kb_words st) w = Some (pts, plen, freq)"
    "pts \<noteq> []" and p: "get_ngram_probability st w prev_word = Inr p" by auto
  from assms(2) have ge: "gesture \<noteq> []" by auto
  from gesture_distance_Inr[OF g assms(2)] obtain d where d: "gesture_distance st gesture w = Inr d"
    by blast
  from Cons.prems have rest: "\<forall>w \<in> set ws. \<exists>pts plen freq.
      getitem (kb_words st) w = Some (pts, plen, freq) \<and> pts \<noteq> [] \<and>
      (\<exists>p. get_ngram_probability st w prev_word = Inr p)" by simp
  show ?case
    unfolding matches_loop_Cons[OF g ge]
    using Cons.IH[OF rest] by (simp add: d p err_bind_def)
qed

lemma matches_loop_all_far:
  assumes "\<forall>w \<in> set ws. \<exists>pts plen freq. getitem (kb_words st) w = Some (pts, plen, freq) \<and> pts \<noteq> [] \<and>
             key_width st < \<bar>fst (hd pts) - fst (hd gesture)\<bar>"
    and "gesture \<noteq> []"
  shows "matches_loop st prev_word gesture gl ws candidates = Inr candidates"
  using assms(1)
proof (induction ws)
  case Nil
  then show ?case by simp
next
  case (Cons w ws)
  from Cons.prems obtain pts plen freq where g: "getitem (kb_words st) w = Some (pts, plen, freq)"
    "pts \<noteq> []" and far: "key_width st < \<bar>fst (hd pts) - fst (hd gesture)\<bar>" by auto
  from g(1) far have "\<not> kept st gesture gl w" by (simp add: kept_def)
  then show ?case
    unfolding matches_loop_Cons[OF g assms(2)] using Cons by simp
qed

lemma sqrt_16: "sqrt 16 = 4"
  using real_sqrt_abs[of 4] by simp

lemma sqrt_9: "sqrt 9 = 3"
  using real_sqrt_abs[of 3] by simp

lemma st3_words: "words (kb_words st3) = [''ab'']"
  by (simp add: st3_def build_def setitem_def new_trie_def new_node_def end_word_def)

lemma st3_getitem: "getitem (kb_words st3) ''ab'' = Some ([(0, 0), (3, 0)], 3, 1 / 2)"
  by (simp add: st3_def build_def setitem_def new_trie_def new_node_def getitem_def Let_def)

lemma st3_probability: "get_ngram_probability st3 ''ab'' '''' = Inr (7 / 10)"
  by (simp add: get_ngram_probability_def st3_getitem Let_def)
     (simp add: st3_def Mapping.size_update Mapping.lookup_default_update'
        Mapping.lookup_default_empty)

lemma gesture_4_length: "snd (val_dist [(0, 0), (4, 0)]) = 4"
  by (simp add: val_dist_def segment_def sqrt_16)

lemma cum_lengths_ab: "cum_lengths [(0, 0), (3, 0)] = [0, 3]"
  by (simp add: cum_lengths_def segment_def sqrt_9)

lemma bisect_3_0: "bisect_left [3] 0 = 0"
  by (simp add: bisect_left_def bisect_loop.simps)

lemma bisect_3_3: "bisect_left [3] 3 = 0"
  by (simp add: bisect_left_def bisect_loop.simps)

lemma sample_ab_0: "sample_point [(0, 0), (3, 0)] [0, 3] 2 0 = Inr (0, 0)"
  by (simp add: sample_point_def bisect_3_0 py_nth_def err_bind_def Let_def)

lemma sample_ab_1: "sample_point [(0, 0), (3, 0)] [0, 3] 2 (Suc 0) = Inr (3, 0)"
  by (simp add: sample_point_def bisect_3_3 py_nth_def err_bind_def Let_def)

lemma resample_ab: "resample [(0, 0), (3, 0)] 2 = Inr [(0, 0), (3, 0)]"
proof -
  have "[0..<2] = [0, Suc 0]" by (simp add: upt_rec)
  then show ?thesis
    by (simp add: resample_def cum_lengths_ab sample_ab_0 sample_ab_1 err_bind_def)
qed

lemma st3_distance: "gesture_distance st3 [(0, 0), (4, 0)] ''ab'' = Inr (1 / 2)"
proof -
  have "resample [(0, 0), (3, 0)] (Suc (Suc 0)) = Inr [(0, 0), (3, 0)]"
    using resample_ab by (simp add: numeral_2_eq_2)
  then show ?thesis
    by (simp add: gesture_distance_def word_sample_n_def st3_getitem err_bind_def)
qed

lemma st3_matches:
  "candidate_matches st3 '''' [(0, 0), (4, 0)] = Inr [(''ab'', exp (- (1 / 4)) * (7 / 10))]"
proof -
  have kw: "key_width st3 = 1" "key_height st3 = 1" by (simp_all add: st3_def)
  show ?thesis
    by (simp add: candidate_matches_def gesture_4_length st3_words st3_getitem py_nth_def
        err_bind_def kw st3_distance st3_probability sort_reverse_def)
qed

lemma kept_set:
  "{w \<in> set ws. kept st gesture gl w} =
   {w \<in> set ws. \<exists>pts plen freq.
      getitem (kb_words st) w = Some (pts, plen, freq) \<and>
      \<bar>fst (hd pts) - fst (hd gesture)\<bar> \<le> key_width st \<and>
      \<bar>snd (hd pts) - snd (hd gesture)\<bar> \<le> key_height st \<and>
      \<bar>fst (last pts) - fst (last gesture)\<bar> \<le> key_width st \<and>
      \<bar>snd (last pts) - snd (last gesture)\<bar> \<le> key_height st \<and>
      0.8 * plen \<le> gl \<and> gl \<le> 1.4 * plen}"
  by (auto simp: kept_def split: option.splits)

lemma candidate_matches_kept:
  assumes "candidate_matches st prev_word gesture = Inr res"
  shows "fst ` set res = {w \<in> set (words (kb_words st)). kept st gesture (snd (val_dist gesture)) w}"
proof -
  from assms obtain cands where
    c: "matches_loop st prev_word gesture (snd (val_dist gesture)) (words (kb_words st)) [] = Inr cands"
    and r: "res = sort_reverse cands"
    by (auto simp: candidate_matches_def err_bind_def Let_def split: sum.splits)
  from matches_loop_kept[OF c]
  have "map fst cands = filter (kept st gesture (snd (val_dist gesture))) (words (kb_words st))"
    by simp
  then have "set (map fst cands) = {w \<in> set (words (kb_words st)). kept st gesture (snd (val_dist gesture)) w}"
    by simp
  then show ?thesis by (simp add: r set_sort_reverse)
qed

lemma candidate_matches_total:
  assumes "kb_words st = build ops"
    and "\<forall>(w, pts, plen, freq) \<in> set ops. pts \<noteq> []"
    and "Mapping.lookup_default 0 (user_unigrams st) prev_word
           + int (Mapping.size (user_unigrams st)) \<noteq> 0"
    and "user_nograms st + int (Mapping.size (user_unigrams st)) \<noteq> 0"
    and "2 \<le> length gesture"
  shows "\<exists>res. candidate_matches st prev_word gesture = Inr res"
proof -
  have "\<exists>pts plen freq. getitem (kb_words st) w = Some (pts, plen, freq) \<and> pts \<noteq> [] \<and>
             (\<exists>p. get_ngram_probability st w prev_word = Inr p)"
    if "w \<in> set (words (kb_words st))" for w
  proof -
    from that assms(1) have w: "w \<in> set (words (build ops))" by simp
    from get_ngram_probability_Inr[OF assms(1) w assms(3,4)] obtain pts plen freq p where
      g: "getitem (kb_words st) w = Some (pts, plen, freq)"
      and p: "get_ngram_probability st w prev_word = Inr p"
      by blast
    from g assms(1) have "(w, pts, plen, freq) \<in> set ops"
      using getitem_build_in_ops[of ops w "(pts, plen, freq)"] by simp
    with assms(2) have "pts \<noteq> []" by auto
    with g p show ?thesis by blast
  qed
  then have "\<forall>w \<in> set (words (kb_words st)). \<exists>pts plen freq.
      getitem (kb_words st) w = Some (pts, plen, freq) \<and> pts \<noteq> [] \<and>
      (\<exists>p. get_ngram_probability st w prev_word = Inr p)" by blast
  from matches_loop_total[OF this assms(5), of "snd (val_dist gesture)" "[]"]
  show ?thesis by (auto simp: candidate_matches_def err_bind_def Let_def)
qed

lemma candidate_matches_all_far:
  assumes "gesture \<noteq> []"
    and "\<forall>w \<in> set (words (kb_words st)). \<exists>pts plen freq.
           getitem (kb_words st) w = Some (pts, plen, freq) \<and> pts \<noteq> [] \<and>
           key_width st < \<bar>fst (hd pts) - fst (hd gesture)\<bar>"
  shows "candidate_matches st prev_word gesture = Inr []"
  using matches_loop_all_far[OF assms(2,1), of prev_word "snd (val_dist gesture)" "[]"]
  by (simp add: candidate_matches_def err_bind_def Let_def sort_reverse_def)

lemma st3_build: "kb_words st3 = build [(''ab'', ([(0, 0), (3, 0)], 3, 1 / 2))]"
  by (simp add: st3_def)

lemma st3_unigram_denominator:
  "Mapping.lookup_default 0 (user_unigrams st3) '''' + int (Mapping.size (user_unigrams st3)) \<noteq> 0"
  by (simp add: st3_def Mapping.size_update Mapping.lookup_default_update'
      Mapping.lookup_default_empty)

lemma st3_nogram_denominator:
  "user_nograms st3 + int (Mapping.size (user_unigrams st3)) \<noteq> 0"
  by (simp add: st3_def Mapping.size_update)

lemma st3_swipe: "candidate_matches st3 '''' swipe = Inr [(''ab'', exp (- (1 / 4)) * (7 / 10))]"
  unfolding swipe_def by (rule st3_matches)

lemma st3_paths:
  "\<forall>(w, pts, plen, freq) \<in> set [(''ab'', ([(0, 0), (3, 0)], 3 :: real, 1 / 2 :: real))]. pts \<noteq> []"
  by simp

lemma st3_far:
  "\<forall>w \<in> set (words (kb_words st3)). \<exists>pts plen freq.
      getitem (kb_words st3) w = Some (pts, plen, freq) \<and> pts \<noteq> [] \<and>
      key_width st3 < \<bar>fst (hd pts) - fst (hd far_tap)\<bar>"
proof -
  have kw: "key_width st3 = 1" by (simp add: st3_def)
  have "getitem (kb_words st3) ''ab'' = Some ([(0, 0), (3, 0)], 3, 1 / 2) \<and>
        [(0 :: real, 0 :: real), (3, 0)] \<noteq> [] \<and>
        key_width st3 < \<bar>fst (hd [(0 :: real, 0 :: real), (3, 0)]) - fst (hd far_tap)\<bar>"
    by (simp add: st3_getitem kw far_tap_def)
  then have "\<exists>pts plen freq.
      getitem (kb_words st3) ''ab'' = Some (pts, plen, freq) \<and> pts \<noteq> [] \<and>
      key_width st3 < \<bar>fst (hd pts) - fst (hd far_tap)\<bar>"
    by blast
  then show ?thesis by (simp add: st3_words)
qed

lemma words_setitem:
  assumes "trie_inv t"
  shows "words (setitem t w v) = (if w \<in> set (words t) then words t else words t @ [w])"
proof -
  from assms have wf: "wf_node [] (trie t)"
    and ws: "set (words t) = {w. end_word (trie t) w \<noteq> None}"
    by (simp_all add: trie_inv_def)
  from wf_end_word[OF wf, of w] have "end_word (trie t) w = None \<or> end_word (trie t) w = Some w"
    by simp
  then have "(w \<in> set (words t)) = (end_word (trie t) w = Some w)" using ws by auto
  then show ?thesis by (simp add: setitem_def)
qed

lemma words_build: "words (build ops) = rev (remdups (rev (map fst ops)))"
proof (induction ops rule: rev_induct)
  case Nil
  then show ?case by (simp add: build_def new_trie_def)
next
  case (snoc x ops)
  obtain w v where x: "x = (w, v)" by (cases x)
  have "set (words (build ops)) = fst ` set ops" using snoc by simp
  then show ?case
    using snoc by (auto simp: x build_snoc words_setitem[OF trie_inv_build])
qed

lemma getitem_build: "getitem (build ops) u = map_of (rev ops) u"
proof (induction ops rule: rev_induct)
  case Nil
  then show ?case by (simp add: build_def getitem_new_trie)
next
  case (snoc x ops)
  obtain w v where x: "x = (w, v)" by (cases x)
  show ?case using snoc by (simp add: x build_snoc getitem_setitem)
qed

lemma count_words_build:
  "count_list (words (build ops)) u = (if u \<in> fst ` set ops then 1 else 0)"
proof -
  have d: "distinct (words (build ops))" by (simp add: words_build)
  have s: "set (words (build ops)) = fst ` set ops" by (simp add: words_build)
  show ?thesis using d s by (simp add: count_list_distinct)
qed

lemma char_of_99: "char_of (99 :: nat) = CHR ''c''"
  by code_simp

lemma lower_Cat: "lower ''Cat'' = ''cat''"
  by (simp add: lower_def lower_char_def) code_simp

lemma st_cat_words: "words (kb_words st_cat) = [''cat'']"
  by (simp add: st_cat_def build_def setitem_def new_trie_def new_node_def end_word_def)

lemma st_cat_getitem: "getitem (kb_words st_cat) ''cat'' = Some ([(0, 0), (1, 0), (2, 0)], 2, 1 / 2)"
  by (simp add: st_cat_def build_def setitem_def new_trie_def new_node_def getitem_def Let_def)

lemma st_cat_centers:
  "map_centers (key_centers st_cat) ''cat'' = Inr [(0, 0), (1, 0), (2, 0)]"
  by (simp add: st_cat_def err_bind_def)

lemma val_dist_cat: "val_dist [(0, 0), (1, 0), (2, 0)] = ([(0, 0), (1, 0), (2, 0)], 2)"
proof -
  have "[1..<3] = [1, 2]" by (simp add: upt_rec)
  then show ?thesis by (simp add: val_dist_def segment_def)
qed

lemma commit_Cat:
  "commit_word st_cat '''' ''Cat'' =
     Inr (st_cat\<lparr>user_nograms := 2,
                 kb_words := setitem (kb_words st_cat) ''cat'' ([(0, 0), (1, 0), (2, 0)], 2, 0),
                 user_unigrams := Mapping.update ''Cat'' 1 (user_unigrams st_cat)\<rparr>)"
proof -
  have n: "user_nograms st_cat = 1" by (simp add: st_cat_def)
  have u: "Mapping.lookup_default 0 (user_unigrams st_cat) ''Cat'' = 0"
    by (simp add: st_cat_def Mapping.lookup_default_update' Mapping.lookup_default_empty)
  show ?thesis
    by (simp add: commit_word_def Let_def st_cat_words lower_Cat st_cat_centers err_bind_def
        val_dist_cat n u del: map_centers.simps)
qed

lemma commit_word_counts:
  assumes "cur_word \<noteq> []" "commit_word st prev_word cur_word = Inr st'"
  shows "user_nograms st' = user_nograms st + 1 \<and>
         Mapping.lookup_default 0 (user_unigrams st') cur_word =
           Mapping.lookup_default 0 (user_unigrams st) cur_word + 1 \<and>
         Mapping.lookup_default 0 (user_bigrams st') (prev_word, cur_word) =
           Mapping.lookup_default 0 (user_bigrams st) (prev_word, cur_word)
             + (if prev_word \<noteq> [] then 1 else 0)"
  using assms
  by (auto simp: commit_word_def Let_def err_bind_def Mapping.lookup_default_update
      split: if_splits sum.splits)

lemma commit_word_known:
  assumes "cur_word \<noteq> []" "cur_word \<in> set (words (kb_words st))"
  shows "\<exists>st'. commit_word st prev_word cur_word = Inr st' \<and> kb_words st' = kb_words st"
  using assms by (auto simp: commit_word_def Let_def err_bind_def)

lemma commit_word_new_lowercase:
  assumes "cur_word \<noteq> []" "cur_word \<notin> set (words (kb_words st))"
    and "lower cur_word = cur_word"
    and "map_centers (key_centers st) cur_word = Inr path"
  shows "\<exists>st'. commit_word st prev_word cur_word = Inr st' \<and>
           kb_words st' = setitem (kb_words st) cur_word (path, snd (val_dist path), 0) \<and>
           getitem (kb_words st') cur_word = Some (path, snd (val_dist path), 0)"
  using assms
  by (auto simp: commit_word_def Let_def err_bind_def val_dist_def getitem_setitem_same)

lemma session_inv_denominators:
  assumes "session_inv st"
  shows "Mapping.lookup_default 0 (user_unigrams st) prev_word
           + int (Mapping.size (user_unigrams st)) \<noteq> 0 \<and>
         user_nograms st + int (Mapping.size (user_unigrams st)) \<noteq> 0"
proof -
  from assms have "0 < int (Mapping.size (user_unigrams st))"
    by (simp add: session_inv_def card_gt_0_iff Mapping.size_def)
  moreover from assms have "0 \<le> Mapping.lookup_default 0 (user_unigrams st) prev_word"
    and "0 \<le> user_nograms st"
    by (simp_all add: session_inv_def)
  ultimately show ?thesis by linarith
qed

lemma session_inv_initial:
  assumes "user_nograms st = 1" "user_unigrams st = Mapping.update ''the'' 1 Mapping.empty"
  shows "session_inv st"
  using assms
  by (simp add: session_inv_def Mapping.lookup_default_update' Mapping.lookup_default_empty)

lemma session_inv_commit:
  assumes "session_inv st" "commit_word st prev_word cur_word = Inr st'"
  shows "session_inv st'"
proof (cases "cur_word = []")
  case True
  with assms show ?thesis by (simp add: commit_word_def)
next
  case False
  from assms(2) False have u: "user_unigrams st' =
      Mapping.update cur_word (Mapping.lookup_default 0 (user_unigrams st) cur_word + 1)
        (user_unigrams st)"
    and n: "user_nograms st' = user_nograms st + 1"
    by (auto simp: commit_word_def Let_def err_bind_def split: if_splits sum.splits)
  from assms(1) show ?thesis
    by (auto simp: session_inv_def u n Mapping.lookup_default_update' add_nonneg_nonneg)
qed

lemma result_words_append: "result_words (xs @ ys) = result_words xs @ result_words ys"
  by (simp add: result_words_def)

lemma result_words_Nil: "result_words [] = []"
  by (simp add: result_words_def)

lemma search_correction_words:
  "map fst (search_correction t q k) = result_words (search_results t q k)"
proof -
  have "map fst (concat (map (\<lambda>(n, v). case word n of None \<Rightarrow> [] | Some w \<Rightarrow> [(w, v)]) rs))
        = result_words rs" for rs :: "('a TrieNode \<times> nat) list"
    by (induction rs) (auto simp: result_words_def split: option.splits)
  then show ?thesis by (simp add: search_correction_def)
qed

lemma foldl_search_append:
  assumes "\<And>l ch res. (l, ch) \<in> set cs \<Longrightarrow>
             searchRecursive ch l q cur res k = res @ searchRecursive ch l q cur [] k"
  shows "foldl (\<lambda>res (l, child). searchRecursive child l q cur res k) res0 cs =
         res0 @ concat (map (\<lambda>(l, child). searchRecursive child l q cur [] k) cs)"
  using assms
proof (induction cs arbitrary: res0)
  case Nil
  show ?case by simp
next
  case (Cons x cs)
  obtain l ch where x: "x = (l, ch)" by (cases x)
  have 1: "searchRecursive ch l q cur res0 k = res0 @ searchRecursive ch l q cur [] k"
    by (rule Cons.prems) (simp add: x)
  have 2: "foldl (\<lambda>res (l, child). searchRecursive child l q cur res k)
             (res0 @ searchRecursive ch l q cur [] k) cs =
           (res0 @ searchRecursive ch l q cur [] k) @
             concat (map (\<lambda>(l, child). searchRecursive child l q cur [] k) cs)"
    by (rule Cons.IH) (rule Cons.prems, simp)
  have "foldl (\<lambda>res (l, child). searchRecursive child l q cur res k) res0 (x # cs) =
        foldl (\<lambda>res (l, child). searchRecursive child l q cur res k)
          (searchRecursive ch l q cur res0 k) cs"
    by (simp add: x)
  also have "\<dots> = foldl (\<lambda>res (l, child). searchRecursive child l q cur res k)
          (res0 @ searchRecursive ch l q cur [] k) cs"
    by (subst 1) (rule refl)
  also note 2
  also have "(res0 @ searchRecursive ch l q cur [] k) @
             concat (map (\<lambda>(l, child). searchRecursive child l q cur [] k) cs) =
             res0 @ concat (map (\<lambda>(l, child). searchRecursive child l q cur [] k) (x # cs))"
    by (simp add: x)
  finally show ?case .
qed

lemma searchRecursive_append:
  "searchRecursive node c q prev res k = res @ searchRecursive node c q prev [] k"
proof (induction node c q prev res k rule: searchRecursive.induct)
  case (1 node letter query previousRow results maxCost)
  let ?cur = "next_row letter query previousRow"
  let ?own = "if last ?cur \<le> maxCost then [(node, last ?cur)] else []"
  show ?case
  proof (cases "min_list ?cur \<le> maxCost")
    case False
    have a: "searchRecursive node letter query previousRow results maxCost = results @ ?own"
      using False by (subst searchRecursive.simps) (simp add: Let_def)
    have b: "searchRecursive node letter query previousRow [] maxCost = ?own"
      using False by (subst searchRecursive.simps) (simp add: Let_def)
    show ?thesis unfolding a b by (rule refl)
  next
    case True
    have kids: "searchRecursive ch l query ?cur res maxCost =
                res @ searchRecursive ch l query ?cur [] maxCost"
      if "(l, ch) \<in> set (children node)" for l ch res
    proof -
      have a: "searchRecursive ch l query ?cur res maxCost =
               res @ searchRecursive ch l query ?cur [] maxCost"
        by (rule 1[OF refl refl True that refl])
      show ?thesis by (rule a)
    qed
    have "searchRecursive node letter query previousRow results maxCost =
          foldl (\<lambda>res (l, child). searchRecursive child l query ?cur res maxCost)
            (results @ ?own) (children node)"
      using True by (subst searchRecursive.simps) (simp add: Let_def)
    also have "\<dots> = (results @ ?own) @
          concat (map (\<lambda>(l, child). searchRecursive child l query ?cur [] maxCost) (children node))"
      by (rule foldl_search_append) (rule kids)
    finally have L: "searchRecursive node letter query previousRow results maxCost =
          results @ ?own @
          concat (map (\<lambda>(l, child). searchRecursive child l query ?cur [] maxCost) (children node))"
      by simp
    have "searchRecursive node letter query previousRow [] maxCost =
          foldl (\<lambda>res (l, child). searchRecursive child l query ?cur res maxCost)
            ([] @ ?own) (children node)"
      using True by (subst searchRecursive.simps) (simp add: Let_def)
    also have "\<dots> = ([] @ ?own) @
          concat (map (\<lambda>(l, child). searchRecursive child l query ?cur [] maxCost) (children node))"
      by (rule foldl_search_append) (rule kids)
    finally have R: "searchRecursive node letter query previousRow [] maxCost =
          ?own @
          concat (map (\<lambda>(l, child). searchRecursive child l query ?cur [] maxCost) (children node))"
      by simp
    show ?thesis unfolding L R by (rule refl)
  qed
qed

lemma searchRecursive_unfold:
  "searchRecursive node letter q prev [] k =
     (let cur = next_row letter q prev
      in (if last cur \<le> k then [(node, last cur)] else []) @
         (if min_list cur \<le> k
          then concat (map (\<lambda>(l, child). searchRecursive child l q cur [] k) (children node))
          else []))"
proof -
  let ?cur = "next_row letter q prev"
  let ?own = "if last ?cur \<le> k then [(node, last ?cur)] else []"
  have kids: "searchRecursive ch l q ?cur res k = res @ searchRecursive ch l q ?cur [] k"
    for l ch res
    by (rule searchRecursive_append)
  show ?thesis
  proof (cases "min_list ?cur \<le> k")
    case False
    then show ?thesis by (subst searchRecursive.simps) (simp add: Let_def)
  next
    case True
    have "searchRecursive node letter q prev [] k =
          foldl (\<lambda>res (l, child). searchRecursive child l q ?cur res k) ([] @ ?own) (children node)"
      using True by (subst searchRecursive.simps) (simp add: Let_def)
    also have "\<dots> = ([] @ ?own) @
          concat (map (\<lambda>(l, child). searchRecursive child l q ?cur [] k) (children node))"
      by (rule foldl_search_append) (rule kids)
    finally show ?thesis using True by (simp add: Let_def)
  qed
qed

lemma result_words_concat_children:
  assumes "distinct (map fst cs)"
    and "\<And>l ch. (l, ch) \<in> set cs \<Longrightarrow>
           distinct (result_words (g l ch)) \<and> (\<forall>w \<in> set (result_words (g l ch)). prefix (p @ [l]) w)"
  shows "distinct (result_words (concat (map (\<lambda>(l, ch). g l ch) cs))) \<and>
         (\<forall>w \<in> set (result_words (concat (map (\<lambda>(l, ch). g l ch) cs))).
            \<exists>l \<in> fst ` set cs. prefix (p @ [l]) w)"
  using assms
proof (induction cs)
  case Nil
  then show ?case by (simp add: result_words_Nil)
next
  case (Cons x cs)
  obtain l ch where x: "x = (l, ch)" by (cases x)
  from Cons.prems(1) have d: "distinct (map fst cs)" and nl: "l \<notin> fst ` set cs"
    by (auto simp: x)
  have IH: "distinct (result_words (concat (map (\<lambda>(l, ch). g l ch) cs))) \<and>
         (\<forall>w \<in> set (result_words (concat (map (\<lambda>(l, ch). g l ch) cs))).
            \<exists>l \<in> fst ` set cs. prefix (p @ [l]) w)"
    by (rule Cons.IH[OF d]) (rule Cons.prems(2), simp)
  have here: "distinct (result_words (g l ch)) \<and> (\<forall>w \<in> set (result_words (g l ch)). prefix (p @ [l]) w)"
    by (rule Cons.prems(2)) (simp add: x)
  have disj: "set (result_words (g l ch)) \<inter>
              set (result_words (concat (map (\<lambda>(l, ch). g l ch) cs))) = {}"
  proof (rule ccontr)
    assume "\<not> ?thesis"
    then obtain w where w1: "w \<in> set (result_words (g l ch))"
      and w2: "w \<in> set (result_words (concat (map (\<lambda>(l, ch). g l ch) cs)))" by blast
    from here w1 have p1: "prefix (p @ [l]) w" by blast
    from IH w2 obtain l' where l': "l' \<in> fst ` set cs" "prefix (p @ [l']) w" by blast
    from p1 obtain r1 where "w = (p @ [l]) @ r1" by (auto simp: prefix_def)
    moreover from l'(2) obtain r2 where "w = (p @ [l']) @ r2" by (auto simp: prefix_def)
    ultimately have "l = l'" by simp
    with nl l'(1) show False by simp
  qed
  have split: "result_words (concat (map (\<lambda>(l, ch). g l ch) (x # cs))) =
        result_words (g l ch) @ result_words (concat (map (\<lambda>(l, ch). g l ch) cs))"
    by (simp add: x result_words_append)
  show ?case unfolding split using IH here disj by (auto simp: x)
qed

lemma searchRecursive_distinct:
  "wf_node p node \<Longrightarrow>
   distinct (result_words (searchRecursive node c q prev [] k)) \<and>
   (\<forall>w \<in> set (result_words (searchRecursive node c q prev [] k)). prefix p w)"
proof (induction p node arbitrary: c prev rule: wf_node.induct)
  case (1 p x v cs)
  let ?node = "TrieNode x v cs"
  let ?cur = "next_row c q prev"
  let ?own = "if last ?cur \<le> k then [(?node, last ?cur)] else []"
  let ?kids = "concat (map (\<lambda>(l, child). searchRecursive child l q ?cur [] k) cs)"
  from 1(2) have dk: "distinct (map fst cs)" by simp
  have each: "distinct (result_words (searchRecursive ch l q ?cur [] k)) \<and>
      (\<forall>w \<in> set (result_words (searchRecursive ch l q ?cur [] k)). prefix (p @ [l]) w)"
    if "(l, ch) \<in> set cs" for l ch
  proof -
    from 1(2) that have "wf_node (p @ [l]) ch" by auto
    from 1(1)[OF that refl this] show ?thesis .
  qed
  from result_words_concat_children[of cs "\<lambda>l ch. searchRecursive ch l q ?cur [] k" p, OF dk each]
  have K: "distinct (result_words ?kids)"
    "\<forall>w \<in> set (result_words ?kids). \<exists>l \<in> fst ` set cs. prefix (p @ [l]) w"
    by blast+
  have own: "set (result_words ?own) \<subseteq> {p}" "distinct (result_words ?own)"
    using 1(2) by (auto simp: result_words_def split: option.splits)
  have kp: "\<forall>w \<in> set (result_words ?kids). prefix p w \<and> w \<noteq> p"
  proof
    fix w assume "w \<in> set (result_words ?kids)"
    with K(2) obtain l where "prefix (p @ [l]) w" by blast
    then obtain r where "w = (p @ [l]) @ r" by (auto simp: prefix_def)
    then show "prefix p w \<and> w \<noteq> p" by simp
  qed
  have unf: "result_words (searchRecursive ?node c q prev [] k) =
        result_words ?own @ (if min_list ?cur \<le> k then result_words ?kids else [])"
    by (subst searchRecursive_unfold) (simp add: Let_def result_words_append result_words_Nil)
  show ?case
    unfolding unf using own K(1) kp by (auto split: if_splits)
qed

lemma search_correction_distinct:
  assumes "trie_inv t"
  shows "distinct (map fst (search_correction t q k))"
proof -
  from assms have wf: "wf_node [] (trie t)" by (simp add: trie_inv_def)
  then have dk: "distinct (map fst (children (trie t)))" by (cases "trie t") simp
  have each: "distinct (result_words (searchRecursive ch l q [0..<length q + 1] [] k)) \<and>
      (\<forall>w \<in> set (result_words (searchRecursive ch l q [0..<length q + 1] [] k)). prefix ([] @ [l]) w)"
    if "(l, ch) \<in> set (children (trie t))" for l ch
  proof -
    from wf that have "wf_node ([] @ [l]) ch" by (cases "trie t") auto
    from searchRecursive_distinct[OF this] show ?thesis .
  qed
  have "search_results t q k =
        [] @ concat (map (\<lambda>(l, child). searchRecursive child l q [0..<length q + 1] [] k)
                      (children (trie t)))"
    unfolding search_results_def by (rule foldl_search_append) (rule searchRecursive_append)
  then show ?thesis
    using result_words_concat_children[of "children (trie t)"
        "\<lambda>l ch. searchRecursive ch l q [0..<length q + 1] [] k" "[]", OF dk each]
    by (simp add: search_correction_words)
qed

lemma kept_filter:
  "filter (kept st gesture gl) ws =
   filter (\<lambda>w. \<exists>pts plen freq.
      getitem (kb_words st) w = Some (pts, plen, freq) \<and>
      \<bar>fst (hd pts) - fst (hd gesture)\<bar> \<le> key_width st \<and>
      \<bar>snd (hd pts) - snd (hd gesture)\<bar> \<le> key_height st \<and>
      \<bar>fst (last pts) - fst (last gesture)\<bar> \<le> key_width st \<and>
      \<bar>snd (last pts) - snd (last gesture)\<bar> \<le> key_height st \<and>
      0.8 * plen \<le> gl \<and> gl \<le> 1.4 * plen) ws"
  by (rule filter_cong) (auto simp: kept_def split: option.splits)

lemma candidate_matches_kept_mset:
  assumes "candidate_matches st prev_word gesture = Inr res"
  shows "mset (map fst res) =
         mset (filter (kept st gesture (snd (val_dist gesture))) (words (kb_words st)))"
proof -
  from assms obtain cands where
    c: "matches_loop st prev_word gesture (snd (val_dist gesture)) (words (kb_words st)) [] = Inr cands"
    and r: "res = sort_reverse cands"
    by (auto simp: candidate_matches_def err_bind_def Let_def split: sum.splits)
  from matches_loop_kept[OF c]
  have "map fst cands = filter (kept st gesture (snd (val_dist gesture))) (words (kb_words st))"
    by simp
  moreover have "mset (map fst res) = mset (map fst cands)"
    unfolding r using mset_sort_reverse[of cands] by (metis mset_map)
  ultimately show ?thesis by simp
qed

lemma candidates_distinct:
  assumes "scored st prev_word cands rs" "mset res = mset cands" "distinct (map fst rs)"
  shows "distinct (map fst res)"
proof -
  from assms(2) have "mset (map fst res) = mset (map fst cands)" by (metis mset_map)
  then have "distinct (map fst res) = distinct (map fst cands)"
    by (rule mset_eq_imp_distinct_iff)
  then show ?thesis using scored_fst[OF assms(1)] assms(3) by simp
qed

section \<open>The claims\<close>

text \<open>
  C3. The word sequence and the terminal nodes of the trie stay in bijection under every
  sequence of \<open>set\<close> operations. After \<open>set(w, v)\<close> on any trie state, \<open>get(w)\<close> is \<open>v\<close> and
  \<open>w\<close> occurs exactly once in the word sequence; setting \<open>w\<close> again changes the value and
  leaves the word sequence as it is. In every trie state the word sequence has no
  duplicates, and its words are exactly the paths from the root that end in a terminal node
  (a node whose \<open>word\<close> is set), and the \<open>word\<close> of such a node is its path. Nothing is lost
  on the way: \<open>get(u)\<close> is the value of the last \<open>set(u, _)\<close> (and absent when there was
  none), the word sequence is the sequence of the words that were set, in the order of
  their first insertion, every one of them exactly once, and a \<open>set(w, v)\<close> changes neither
  the value of another word nor the words already in the sequence.
\<close>

theorem trie_words_bijection:
  "getitem (setitem (build ops) w v) w = Some v \<and>
   count_list (words (setitem (build ops) w v)) w = 1 \<and>
   words (setitem (setitem (build ops) w v) w v') = words (setitem (build ops) w v) \<and>
   getitem (setitem (setitem (build ops) w v) w v') w = Some v' \<and>
   distinct (words (build ops)) \<and>
   set (words (build ops)) =
     {u. \<exists>node. find_node (trie (build ops)) u = Some node \<and> word node \<noteq> None} \<and>
   set (words (build ops)) =
     {u. \<exists>node. find_node (trie (build ops)) u = Some node \<and> word node = Some u} \<and>
   getitem (build ops) u = map_of (rev ops) u \<and>
   words (build ops) = rev (remdups (rev (map fst ops))) \<and>
   set (words (build ops)) = fst ` set ops \<and>
   count_list (words (build ops)) u = (if u \<in> fst ` set ops then 1 else 0) \<and>
   getitem (setitem (build ops) w v) u = (if u = w then Some v else getitem (build ops) u) \<and>
   words (setitem (build ops) w v) =
     (if w \<in> set (words (build ops)) then words (build ops) else words (build ops) @ [w])"
proof -
  have inv: "trie_inv (build ops)" by (rule trie_inv_build)
  have a: "set (words (build ops)) = {u. end_word (trie (build ops)) u \<noteq> None}"
    using inv by (simp add: trie_inv_def)
  have b: "end_word (trie (build ops)) u = None \<or> end_word (trie (build ops)) u = Some u" for u
    using inv wf_end_word[of "[]" "trie (build ops)" u] by (simp add: trie_inv_def)
  have c: "{u. end_word (trie (build ops)) u \<noteq> None} =
           {u. \<exists>node. find_node (trie (build ops)) u = Some node \<and> word node \<noteq> None}"
    by (auto simp: end_word_def split: option.splits)
  have d: "{u. end_word (trie (build ops)) u \<noteq> None} =
           {u. \<exists>node. find_node (trie (build ops)) u = Some node \<and> word node = Some u}"
  proof -
    have "(end_word (trie (build ops)) u \<noteq> None) =
          (\<exists>node. find_node (trie (build ops)) u = Some node \<and> word node = Some u)" for u
      using b[of u] by (auto simp: end_word_def split: option.splits)
    then show ?thesis by simp
  qed
  have e: "set (words (build ops)) = fst ` set ops" by (simp add: words_build)
  have f: "distinct (words (build ops))" by (simp add: words_build)
  have 1: "getitem (setitem (build ops) w v) w = Some v" by (rule getitem_setitem_same)
  have 2: "count_list (words (setitem (build ops) w v)) w = 1"
    by (rule words_setitem_count[OF inv])
  have 3: "words (setitem (setitem (build ops) w v) w v') = words (setitem (build ops) w v)"
    by (rule words_setitem_again)
  have 4: "getitem (setitem (setitem (build ops) w v) w v') w = Some v'"
    by (rule getitem_setitem_same)
  have 6: "set (words (build ops)) =
     {u. \<exists>node. find_node (trie (build ops)) u = Some node \<and> word node \<noteq> None}"
    using a c by simp
  have 7: "set (words (build ops)) =
     {u. \<exists>node. find_node (trie (build ops)) u = Some node \<and> word node = Some u}"
    using a d by simp
  have 12: "getitem (setitem (build ops) w v) u = (if u = w then Some v else getitem (build ops) u)"
    by (rule getitem_setitem)
  show ?thesis
    by (intro conjI)
       (rule 1 2 3 4 f 6 7 getitem_build words_build e count_words_build 12
          words_setitem[OF inv])+
qed

text \<open>
  C1, as the code has it. \<open>search_correction\<close> returns exactly the non-empty stored words
  whose edit distance to the query is at most \<open>maxCost\<close>, each paired with that distance.
  The empty word is left out even when it is stored: the search starts at the children
  of the root.
\<close>

theorem search_correction_nonempty_words:
  "set (search_correction (build ops) q k) =
     {(w, edit_distance w q) | w.
        w \<in> set (words (build ops)) \<and> w \<noteq> [] \<and> edit_distance w q \<le> k}"
  using search_correction_iff[OF trie_inv_build, of _ _ ops q k]
  by (auto simp: row_cost_edit_distance)

text \<open>
  C1 as stated fails when the empty word is stored: it is at distance 0 from the empty
  query, and the search with \<open>maxCost = 0\<close> does not return it.
\<close>

theorem search_correction_empty_word_counterexample:
  "[] \<in> set (words (build [([], ())])) \<and>
   edit_distance [] [] \<le> 0 \<and>
   ([], edit_distance [] []) \<notin> set (search_correction (build [([], ())]) [] 0)"
  by (simp add: build_def setitem_def new_trie_def new_node_def end_word_def
      search_correction_def search_results_def edit_distance_def)

text \<open>
  C2, as the code has it. \<open>search_prediction\<close> returns exactly the stored words that have
  a non-empty prefix whose row cost against the query is at most \<open>maxCost\<close> (the nodes of
  these prefixes are the matched nodes other than the root), each word once, paired with
  the least cost among these prefixes.
\<close>

theorem search_prediction_nonroot_prefixes:
  "set (search_prediction (build ops) q k) =
     {(w, Min (set (matched_prefix_costs w q k))) | w.
        w \<in> set (words (build ops)) \<and> matched_prefix_costs w q k \<noteq> []} \<and>
   distinct (map fst (search_prediction (build ops) q k))"
proof
  have c: "costs_of (search_results (build ops) q k) w =
        (if w \<in> set (words (build ops)) then set (matched_prefix_costs w q k) else {})" for w
    by (simp add: costs_of_search_results[OF trie_inv_build] set_matched_prefix_costs)
  show "set (search_prediction (build ops) q k) =
     {(w, Min (set (matched_prefix_costs w q k))) | w.
        w \<in> set (words (build ops)) \<and> matched_prefix_costs w q k \<noteq> []}"
  proof (rule set_eqI, clarify)
    fix w c
    show "(w, c) \<in> set (search_prediction (build ops) q k) \<longleftrightarrow>
          (w, c) \<in> {(w, Min (set (matched_prefix_costs w q k))) | w.
                      w \<in> set (words (build ops)) \<and> matched_prefix_costs w q k \<noteq> []}"
      unfolding search_prediction_iff c by auto
  qed
  show "distinct (map fst (search_prediction (build ops) q k))"
    using prediction_fold[of "search_results (build ops) q k"]
    by (simp add: search_prediction_def)
qed

text \<open>
  C2 as stated fails at the root: for the empty query the row of the root costs 0, and
  the stored word a is below the root, but the search with \<open>maxCost = 0\<close> returns nothing.
\<close>

theorem search_prediction_root_counterexample:
  "''a'' \<in> set (words (build [(''a'', ())])) \<and>
   prefix [] ''a'' \<and> row_cost [] [] \<le> 0 \<and>
   search_prediction (build [(''a'', ())]) [] 0 = []"
  by (simp add: build_def setitem_def new_trie_def new_node_def end_word_def Let_def
      search_prediction_def search_results_def searchRecursive.simps next_row_def
      row_cost_def path_row_def)

text \<open>
  C10. Neither search returns the empty string as a word, whatever has been stored,
  whatever the query and the bound.
\<close>

theorem searches_never_return_empty_word:
  "[] \<notin> fst ` set (search_correction (build ops) q k) \<and>
   [] \<notin> fst ` set (search_prediction (build ops) q k)"
proof
  show "[] \<notin> fst ` set (search_correction (build ops) q k)"
    using search_correction_iff[OF trie_inv_build, of "[]" _ ops q k] by auto
  show "[] \<notin> fst ` set (search_prediction (build ops) q k)"
  proof
    assume "[] \<in> fst ` set (search_prediction (build ops) q k)"
    then obtain c where "([], c) \<in> set (search_prediction (build ops) q k)" by auto
    then have "costs_of (search_results (build ops) q k) [] \<noteq> {}"
      by (simp add: search_prediction_iff)
    then show False
      by (auto simp: costs_of_search_results[OF trie_inv_build] split: if_splits)
  qed
qed

text \<open>
  C5. For a word of the vocabulary and any previous word, the probability of the language
  model is \<open>0.4 * (bigram + 1) / (unigram(prev) + distinct)\<close> plus
  \<open>0.1 * (unigram(word) + 1) / (total + distinct)\<close> plus \<open>0.5\<close> times the frequency stored
  with the word, where \<open>distinct\<close> is the number of keys of the unigram counts. The two
  denominators are not zero in a state of the engine: the unigram counts hold the word
  the from the start and counts only grow (lemmas \<open>session_inv_initial\<close>,
  \<open>session_inv_commit\<close> and \<open>session_inv_denominators\<close>). With a zero denominator
  Python raises.
\<close>

theorem ngram_probability_formula:
  assumes "kb_words st = build ops"
    and "w \<in> set (words (build ops))"
    and "Mapping.lookup_default 0 (user_unigrams st) prev_word
           + int (Mapping.size (user_unigrams st)) \<noteq> 0"
    and "user_nograms st + int (Mapping.size (user_unigrams st)) \<noteq> 0"
  shows "\<exists>path tot freq.
           getitem (kb_words st) w = Some (path, tot, freq) \<and>
           get_ngram_probability st w prev_word =
             Inr (0.4 * (real_of_int (Mapping.lookup_default 0 (user_bigrams st) (prev_word, w)) + 1)
                      / (real_of_int (Mapping.lookup_default 0 (user_unigrams st) prev_word)
                         + real (Mapping.size (user_unigrams st)))
                  + 0.1 * (real_of_int (Mapping.lookup_default 0 (user_unigrams st) w) + 1)
                      / (real_of_int (user_nograms st) + real (Mapping.size (user_unigrams st)))
                  + 0.5 * freq)"
proof -
  from words_getitem[OF trie_inv_build assms(2)] obtain e where "getitem (build ops) w = Some e"
    by blast
  then obtain path tot freq where e: "getitem (kb_words st) w = Some (path, tot, freq)"
    using assms(1) by (cases e) auto
  show ?thesis
    using assms(3,4) e by (simp add: get_ngram_probability_def Let_def)
qed

text \<open>
  C5 at the state of the engine at its start, with the word the in the vocabulary at
  frequency 1/2 and no previous word: the probability is 0.4 + 0.1 + 0.25.
\<close>

theorem ngram_probability_formula_witness:
  "kb_words st0 = build [(''the'', ([(0, 0), (1, 0), (1, 0)], 1, 1 / 2))] \<and>
   ''the'' \<in> set (words (build [(''the'', ([(0, 0), (1, 0), (1, 0)], 1 :: real, 1 / 2 :: real))])) \<and>
   Mapping.lookup_default 0 (user_unigrams st0) ''''
     + int (Mapping.size (user_unigrams st0)) \<noteq> 0 \<and>
   user_nograms st0 + int (Mapping.size (user_unigrams st0)) \<noteq> 0 \<and>
   get_ngram_probability st0 ''the'' '''' = Inr (0.4 * 1 / 1 + 0.1 * 2 / 2 + 0.5 * (1 / 2))"
proof -
  have a: "kb_words st0 = build [(''the'', ([(0, 0), (1, 0), (1, 0)], 1, 1 / 2))]"
    by (simp add: st0_def)
  have b: "''the'' \<in> set (words (build [(''the'', ([(0, 0), (1, 0), (1, 0)], 1 :: real, 1 / 2 :: real))]))"
    by (simp add: build_def setitem_def new_trie_def new_node_def end_word_def)
  have c: "Mapping.lookup_default 0 (user_unigrams st0) ''''
            + int (Mapping.size (user_unigrams st0)) \<noteq> 0"
    by (simp add: st0_def Mapping.size_update Mapping.lookup_default_update'
        Mapping.lookup_default_empty)
  have d: "user_nograms st0 + int (Mapping.size (user_unigrams st0)) \<noteq> 0"
    by (simp add: st0_def Mapping.size_update)
  from ngram_probability_formula[OF a b c d] obtain path tot freq where
    g: "getitem (kb_words st0) ''the'' = Some (path, tot, freq)" and
    p: "get_ngram_probability st0 ''the'' '''' =
          Inr (0.4 * (real_of_int (Mapping.lookup_default 0 (user_bigrams st0) ('''', ''the'')) + 1)
                   / (real_of_int (Mapping.lookup_default 0 (user_unigrams st0) '''')
                      + real (Mapping.size (user_unigrams st0)))
               + 0.1 * (real_of_int (Mapping.lookup_default 0 (user_unigrams st0) ''the'') + 1)
                   / (real_of_int (user_nograms st0) + real (Mapping.size (user_unigrams st0)))
               + 0.5 * freq)"
    by blast
  have "getitem (kb_words st0) ''the'' = Some ([(0, 0), (1, 0), (1, 0)], 1, 1 / 2)"
    by (simp add: st0_def build_def setitem_def new_trie_def new_node_def getitem_def Let_def)
  with g have freq: "freq = 1 / 2" by simp
  have e: "get_ngram_probability st0 ''the'' '''' = Inr (0.4 * 1 / 1 + 0.1 * 2 / 2 + 0.5 * (1 / 2))"
    unfolding p freq
    by (simp add: st0_def Mapping.size_update Mapping.lookup_default_update'
        Mapping.lookup_default_empty)
  from a b c d e show ?thesis by blast
qed

text \<open>
  C6. \<open>candidate_corrections\<close> and \<open>candidate_predictions\<close> search the trie with the bound
  2, give each word found the score \<open>0.001 ^ cost\<close> times the probability of the word after
  the previous word, and return these candidates (all of them, nothing else) in
  descending order of the score.
\<close>

theorem candidates_scored_and_sorted:
  assumes "kb_words st = build ops"
    and "Mapping.lookup_default 0 (user_unigrams st) prev_word
           + int (Mapping.size (user_unigrams st)) \<noteq> 0"
    and "user_nograms st + int (Mapping.size (user_unigrams st)) \<noteq> 0"
  shows "(\<exists>cands res.
            scored st prev_word cands (search_correction (kb_words st) w 2) \<and>
            candidate_corrections st prev_word w = Inr res \<and>
            mset res = mset cands \<and> sorted_wrt (\<lambda>a b. snd b \<le> snd a) res) \<and>
         (\<exists>cands res.
            scored st prev_word cands (search_prediction (kb_words st) w 2) \<and>
            candidate_predictions st prev_word w = Inr res \<and>
            mset res = mset cands \<and> sorted_wrt (\<lambda>a b. snd b \<le> snd a) res)"
proof
  have c: "fst ` set (search_correction (kb_words st) w 2) \<subseteq> set (words (build ops))"
    using search_correction_iff[OF trie_inv_build, of _ _ ops w 2] assms(1) by auto
  from candidates_of_results[OF assms c]
  show "\<exists>cands res.
            scored st prev_word cands (search_correction (kb_words st) w 2) \<and>
            candidate_corrections st prev_word w = Inr res \<and>
            mset res = mset cands \<and> sorted_wrt (\<lambda>a b. snd b \<le> snd a) res"
    unfolding candidate_corrections_def by blast
  have p: "fst ` set (search_prediction (kb_words st) w 2) \<subseteq> set (words (build ops))"
    using search_prediction_words[OF trie_inv_build, of _ _ ops w 2] assms(1) by auto
  from candidates_of_results[OF assms p]
  show "\<exists>cands res.
            scored st prev_word cands (search_prediction (kb_words st) w 2) \<and>
            candidate_predictions st prev_word w = Inr res \<and>
            mset res = mset cands \<and> sorted_wrt (\<lambda>a b. snd b \<le> snd a) res"
    unfolding candidate_predictions_def by blast
qed

text \<open>C6 at the same state, for the typed word teh.\<close>

theorem candidates_scored_and_sorted_witness:
  "kb_words st0 = build [(''the'', ([(0, 0), (1, 0), (1, 0)], 1, 1 / 2))] \<and>
   Mapping.lookup_default 0 (user_unigrams st0) '''' + int (Mapping.size (user_unigrams st0)) \<noteq> 0 \<and>
   user_nograms st0 + int (Mapping.size (user_unigrams st0)) \<noteq> 0 \<and>
   (\<exists>cands res.
      scored st0 '''' cands (search_correction (kb_words st0) ''teh'' 2) \<and>
      candidate_corrections st0 '''' ''teh'' = Inr res \<and>
      mset res = mset cands \<and> sorted_wrt (\<lambda>a b. snd b \<le> snd a) res) \<and>
   (\<exists>cands res.
      scored st0 '''' cands (search_prediction (kb_words st0) ''teh'' 2) \<and>
      candidate_predictions st0 '''' ''teh'' = Inr res \<and>
      mset res = mset cands \<and> sorted_wrt (\<lambda>a b. snd b \<le> snd a) res)"
  using candidates_scored_and_sorted[OF st0_words st0_unigram_denominator st0_nogram_denominator,
      of "''teh''"]
    st0_words st0_unigram_denominator st0_nogram_denominator
  by blast

text \<open>
  C4, as the code has it. When \<open>candidate_matches\<close> returns, the words of its candidates
  are exactly the words of the vocabulary (each as often as it is in the word sequence, so
  once) whose first and last key centres are within one
  key width (in x) and one key height (in y) of the first and last point of the gesture,
  and for which the length of the gesture lies between 0.8 and 1.4 times the stored length
  of the path of the word. It does return for a gesture of at least two points (over a
  vocabulary whose paths are not empty). A gesture whose first point is farther than one
  key width in x from the first key centre of every word has no candidates.
\<close>

theorem prefilter_of_candidate_matches:
  "(\<forall>res. candidate_matches st prev_word gesture = Inr res \<longrightarrow>
      mset (map fst res) =
        mset (filter (\<lambda>w. \<exists>pts plen freq.
           getitem (kb_words st) w = Some (pts, plen, freq) \<and>
           \<bar>fst (hd pts) - fst (hd gesture)\<bar> \<le> key_width st \<and>
           \<bar>snd (hd pts) - snd (hd gesture)\<bar> \<le> key_height st \<and>
           \<bar>fst (last pts) - fst (last gesture)\<bar> \<le> key_width st \<and>
           \<bar>snd (last pts) - snd (last gesture)\<bar> \<le> key_height st \<and>
           0.8 * plen \<le> snd (val_dist gesture) \<and> snd (val_dist gesture) \<le> 1.4 * plen)
          (words (kb_words st)))) \<and>
   (kb_words st = build ops \<and> (\<forall>(w, pts, plen, freq) \<in> set ops. pts \<noteq> []) \<and>
    Mapping.lookup_default 0 (user_unigrams st) prev_word
      + int (Mapping.size (user_unigrams st)) \<noteq> 0 \<and>
    user_nograms st + int (Mapping.size (user_unigrams st)) \<noteq> 0 \<and>
    2 \<le> length gesture \<longrightarrow>
      (\<exists>res. candidate_matches st prev_word gesture = Inr res)) \<and>
   (gesture \<noteq> [] \<and>
    (\<forall>w \<in> set (words (kb_words st)). \<exists>pts plen freq.
       getitem (kb_words st) w = Some (pts, plen, freq) \<and> pts \<noteq> [] \<and>
       key_width st < \<bar>fst (hd pts) - fst (hd gesture)\<bar>) \<longrightarrow>
      candidate_matches st prev_word gesture = Inr [])"
proof (intro conjI allI impI)
  fix res
  assume "candidate_matches st prev_word gesture = Inr res"
  from candidate_matches_kept_mset[OF this] show "mset (map fst res) =
        mset (filter (\<lambda>w. \<exists>pts plen freq.
           getitem (kb_words st) w = Some (pts, plen, freq) \<and>
           \<bar>fst (hd pts) - fst (hd gesture)\<bar> \<le> key_width st \<and>
           \<bar>snd (hd pts) - snd (hd gesture)\<bar> \<le> key_height st \<and>
           \<bar>fst (last pts) - fst (last gesture)\<bar> \<le> key_width st \<and>
           \<bar>snd (last pts) - snd (last gesture)\<bar> \<le> key_height st \<and>
           0.8 * plen \<le> snd (val_dist gesture) \<and> snd (val_dist gesture) \<le> 1.4 * plen)
          (words (kb_words st)))"
    unfolding kept_filter .
next
  assume "kb_words st = build ops \<and> (\<forall>(w, pts, plen, freq) \<in> set ops. pts \<noteq> []) \<and>
    Mapping.lookup_default 0 (user_unigrams st) prev_word
      + int (Mapping.size (user_unigrams st)) \<noteq> 0 \<and>
    user_nograms st + int (Mapping.size (user_unigrams st)) \<noteq> 0 \<and>
    2 \<le> length gesture"
  then show "\<exists>res. candidate_matches st prev_word gesture = Inr res"
    using candidate_matches_total[of st ops prev_word gesture] by blast
next
  assume "gesture \<noteq> [] \<and>
    (\<forall>w \<in> set (words (kb_words st)). \<exists>pts plen freq.
       getitem (kb_words st) w = Some (pts, plen, freq) \<and> pts \<noteq> [] \<and>
       key_width st < \<bar>fst (hd pts) - fst (hd gesture)\<bar>)"
  then show "candidate_matches st prev_word gesture = Inr []"
    using candidate_matches_all_far[of gesture st prev_word] by blast
qed

text \<open>
  C4 at the vocabulary of the word ab, stored with the path from (0, 0) to (3, 0): the
  gesture from (0, 0) to (4, 0) keeps the word, and the tap at (5, 0), farther than one key
  width from the key of a, has no candidates.
\<close>

theorem prefilter_of_candidate_matches_witness:
  "kb_words st3 = build [(''ab'', ([(0, 0), (3, 0)], 3, 1 / 2))] \<and>
   [(0 :: real, 0 :: real), (3, 0)] \<noteq> [] \<and>
   Mapping.lookup_default 0 (user_unigrams st3) '''' + int (Mapping.size (user_unigrams st3)) \<noteq> 0 \<and>
   user_nograms st3 + int (Mapping.size (user_unigrams st3)) \<noteq> 0 \<and>
   2 \<le> length swipe \<and>
   candidate_matches st3 '''' swipe = Inr [(''ab'', exp (- (1 / 4)) * (7 / 10))] \<and>
   mset (map fst [(''ab'', exp (- (1 / 4)) * (7 / 10 :: real))]) =
     mset (filter (\<lambda>w. \<exists>pts plen freq.
        getitem (kb_words st3) w = Some (pts, plen, freq) \<and>
        \<bar>fst (hd pts) - fst (hd swipe)\<bar> \<le> key_width st3 \<and>
        \<bar>snd (hd pts) - snd (hd swipe)\<bar> \<le> key_height st3 \<and>
        \<bar>fst (last pts) - fst (last swipe)\<bar> \<le> key_width st3 \<and>
        \<bar>snd (last pts) - snd (last swipe)\<bar> \<le> key_height st3 \<and>
        0.8 * plen \<le> snd (val_dist swipe) \<and>
        snd (val_dist swipe) \<le> 1.4 * plen) (words (kb_words st3))) \<and>
   far_tap \<noteq> [] \<and>
   words (kb_words st3) = [''ab''] \<and>
   getitem (kb_words st3) ''ab'' = Some ([(0, 0), (3, 0)], 3, 1 / 2) \<and>
   key_width st3 < \<bar>fst (hd [(0 :: real, 0 :: real), (3, 0)]) - fst (hd far_tap)\<bar> \<and>
   candidate_matches st3 '''' far_tap = Inr []"
proof -
  have h2: "[(0 :: real, 0 :: real), (3, 0)] \<noteq> []" by simp
  have h5: "2 \<le> length swipe" by (simp add: swipe_def)
  have total: "\<exists>res. candidate_matches st3 '''' swipe = Inr res"
    using prefilter_of_candidate_matches[of st3 "''''" swipe
        "[(''ab'', ([(0, 0), (3, 0)], 3, 1 / 2))]", THEN conjunct2, THEN conjunct1]
      st3_build st3_paths st3_unigram_denominator st3_nogram_denominator h5
    by blast
  note kept = prefilter_of_candidate_matches[of st3 "''''" swipe
      "[(''ab'', ([(0, 0), (3, 0)], 3, 1 / 2))]", THEN conjunct1, rule_format, OF st3_swipe]
  have ne: "far_tap \<noteq> []" by (simp add: far_tap_def)
  have kw: "key_width st3 < \<bar>fst (hd [(0 :: real, 0 :: real), (3, 0)]) - fst (hd far_tap)\<bar>"
    by (simp add: st3_def far_tap_def)
  note empty = prefilter_of_candidate_matches[of st3 "''''" far_tap
      "[(''ab'', ([(0, 0), (3, 0)], 3, 1 / 2))]", THEN conjunct2, THEN conjunct2, rule_format,
      OF conjI[OF ne st3_far]]
  show ?thesis
    by (intro conjI)
       (rule st3_build h2 st3_unigram_denominator st3_nogram_denominator h5 st3_swipe
          kept ne st3_words st3_getitem kw empty)+
qed

text \<open>
  C4 as stated fails where the two intervals differ: the gesture from (0, 0) to (4, 0)
  has length 4, the stored length 3 of the word ab is below 0.8 times 4, and the word is
  kept, since 4 is between 0.8 times 3 and 1.4 times 3.
\<close>

theorem prefilter_interval_counterexample:
  "getitem (kb_words st3) ''ab'' = Some ([(0, 0), (3, 0)], 3, 1 / 2) \<and>
   snd (val_dist swipe) = 4 \<and>
   \<not> (0.8 * snd (val_dist swipe) \<le> (3 :: real)) \<and>
   candidate_matches st3 '''' swipe = Inr [(''ab'', exp (- (1 / 4)) * (7 / 10))]"
  using gesture_4_length by (simp add: st3_getitem st3_swipe) (simp add: swipe_def)

text \<open>
  C7. \<open>word_sample_n\<close> divides by \<open>n - 1\<close>: resampling the stored path of a word to one
  point raises \<open>ZeroDivisionError\<close>. (For every other \<open>n\<close> and a non-empty path it returns
  \<open>n\<close> points, lemma \<open>resample_total\<close>, and these are \<open>n\<close> copies of the first point when
  the path has length 0, lemma \<open>resample_zero_length\<close>.)
\<close>

theorem word_sample_one_point_raises:
  "getitem (kb_words st1) ''a'' = Some ([(0, 0)], 0, 1 / 2) \<and>
   word_sample_n st1 ''a'' 1 = Inl ZeroDivisionError"
proof -
  have g: "getitem (kb_words st1) ''a'' = Some ([(0, 0)], 0, 1 / 2)"
    by (simp add: st1_def build_def setitem_def new_trie_def new_node_def getitem_def Let_def)
  then show ?thesis using resample_one[of "[(0, 0)]"] by (simp add: word_sample_n_def)
qed

text \<open>
  C8, as the code has it. For the empty prefix, \<open>candidate_corrections\<close> returns the
  non-empty words of the vocabulary of at most two letters and \<open>candidate_predictions\<close>
  returns all the non-empty words of the vocabulary, each word once and in descending
  order of the score, and neither raises; for the empty gesture \<open>candidate_matches\<close>
  returns the empty list when the vocabulary is empty.
\<close>

theorem empty_prefix_candidates:
  assumes "kb_words st = build ops"
    and "Mapping.lookup_default 0 (user_unigrams st) prev_word
           + int (Mapping.size (user_unigrams st)) \<noteq> 0"
    and "user_nograms st + int (Mapping.size (user_unigrams st)) \<noteq> 0"
  shows "(\<exists>res. candidate_corrections st prev_word [] = Inr res \<and>
                fst ` set res = {w \<in> set (words (build ops)). w \<noteq> [] \<and> length w \<le> 2} \<and>
                distinct (map fst res) \<and> sorted_wrt (\<lambda>a b. snd b \<le> snd a) res) \<and>
         (\<exists>res. candidate_predictions st prev_word [] = Inr res \<and>
                fst ` set res = {w \<in> set (words (build ops)). w \<noteq> []} \<and>
                distinct (map fst res) \<and> sorted_wrt (\<lambda>a b. snd b \<le> snd a) res) \<and>
         candidate_matches (st\<lparr>kb_words := new_trie\<rparr>) prev_word [] = Inr []"
proof (intro conjI)
  have c: "fst ` set (search_correction (kb_words st) [] 2) \<subseteq> set (words (build ops))"
    using correction_words_empty_query[of ops] assms(1) by auto
  from candidates_of_results[OF assms c] obtain cands res where
    r: "scored st prev_word cands (search_correction (kb_words st) [] 2)"
       "candidate_corrections st prev_word [] = Inr res" "mset res = mset cands"
       "sorted_wrt (\<lambda>a b. snd b \<le> snd a) res"
    unfolding candidate_corrections_def by blast
  from candidates_fst[OF r(1,3)] have "fst ` set res = fst ` set (search_correction (build ops) [] 2)"
    using assms(1) by simp
  then have s: "fst ` set res = {w \<in> set (words (build ops)). w \<noteq> [] \<and> length w \<le> 2}"
    unfolding correction_words_empty_query .
  have "distinct (map fst (search_correction (kb_words st) [] 2))"
    unfolding assms(1) by (rule search_correction_distinct[OF trie_inv_build])
  from candidates_distinct[OF r(1,3) this] have d: "distinct (map fst res)" .
  from r(2) s d r(4) show "\<exists>res. candidate_corrections st prev_word [] = Inr res \<and>
                fst ` set res = {w \<in> set (words (build ops)). w \<noteq> [] \<and> length w \<le> 2} \<and>
                distinct (map fst res) \<and> sorted_wrt (\<lambda>a b. snd b \<le> snd a) res"
    by blast
next
  have p: "fst ` set (search_prediction (kb_words st) [] 2) \<subseteq> set (words (build ops))"
    using prediction_words_empty_query[of ops] assms(1) by auto
  from candidates_of_results[OF assms p] obtain cands res where
    r: "scored st prev_word cands (search_prediction (kb_words st) [] 2)"
       "candidate_predictions st prev_word [] = Inr res" "mset res = mset cands"
       "sorted_wrt (\<lambda>a b. snd b \<le> snd a) res"
    unfolding candidate_predictions_def by blast
  from candidates_fst[OF r(1,3)] have "fst ` set res = fst ` set (search_prediction (build ops) [] 2)"
    using assms(1) by simp
  then have s: "fst ` set res = {w \<in> set (words (build ops)). w \<noteq> []}"
    unfolding prediction_words_empty_query .
  have "distinct (map fst (search_prediction (kb_words st) [] 2))"
    using prediction_fold[of "search_results (kb_words st) [] 2"]
    by (simp add: search_prediction_def)
  from candidates_distinct[OF r(1,3) this] have d: "distinct (map fst res)" .
  from r(2) s d r(4) show "\<exists>res. candidate_predictions st prev_word [] = Inr res \<and>
                fst ` set res = {w \<in> set (words (build ops)). w \<noteq> []} \<and>
                distinct (map fst res) \<and> sorted_wrt (\<lambda>a b. snd b \<le> snd a) res"
    by blast
next
  show "candidate_matches (st\<lparr>kb_words := new_trie\<rparr>) prev_word [] = Inr []"
    by (rule candidate_matches_empty_vocabulary)
qed

text \<open>C8 at the vocabulary of the one word a.\<close>

theorem empty_prefix_candidates_witness:
  "kb_words st1 = build [(''a'', ([(0, 0)], 0, 1 / 2))] \<and>
   Mapping.lookup_default 0 (user_unigrams st1) '''' + int (Mapping.size (user_unigrams st1)) \<noteq> 0 \<and>
   user_nograms st1 + int (Mapping.size (user_unigrams st1)) \<noteq> 0 \<and>
   (\<exists>res. candidate_corrections st1 '''' [] = Inr res \<and> fst ` set res = {''a''} \<and>
          distinct (map fst res) \<and> sorted_wrt (\<lambda>a b. snd b \<le> snd a) res) \<and>
   (\<exists>res. candidate_predictions st1 '''' [] = Inr res \<and> fst ` set res = {''a''} \<and>
          distinct (map fst res) \<and> sorted_wrt (\<lambda>a b. snd b \<le> snd a) res) \<and>
   candidate_matches (st1\<lparr>kb_words := new_trie\<rparr>) '''' [] = Inr []"
proof -
  have w: "words (build [(''a'', ([(0, 0)], 0 :: real, 1 / 2 :: real))]) = [''a'']"
    by (simp add: build_def setitem_def new_trie_def new_node_def end_word_def)
  have 1: "{w \<in> set (words (build [(''a'', ([(0, 0)], 0 :: real, 1 / 2 :: real))])). w \<noteq> [] \<and> length w \<le> 2}
           = {''a''}"
    unfolding w by auto
  have 2: "{w \<in> set (words (build [(''a'', ([(0, 0)], 0 :: real, 1 / 2 :: real))])). w \<noteq> []} = {''a''}"
    unfolding w by auto
  from empty_prefix_candidates[OF st1_words st1_unigram_denominator st1_nogram_denominator]
    st1_words st1_unigram_denominator st1_nogram_denominator
  show ?thesis unfolding 1 2 by blast
qed

text \<open>
  C8 as stated fails on the vocabulary of the one word a: for the empty prefix both
  lists hold the word a, and the empty gesture raises \<open>IndexError\<close> at \<open>gesture[0]\<close>.
\<close>

theorem empty_input_counterexample:
  "candidate_corrections st1 '''' [] = Inr [(''a'', 7 / 10000)] \<and>
   candidate_predictions st1 '''' [] = Inr [(''a'', 7 / 10000)] \<and>
   candidate_matches st1 '''' [] = Inl IndexError"
proof (intro conjI)
  show "candidate_corrections st1 '''' [] = Inr [(''a'', 7 / 10000)]"
    by (simp add: candidate_corrections_def st1_correction st1_probability err_bind_def
        sort_reverse_def)
  show "candidate_predictions st1 '''' [] = Inr [(''a'', 7 / 10000)]"
    by (simp add: candidate_predictions_def st1_prediction st1_probability err_bind_def
        sort_reverse_def)
  have "words (kb_words st1) = [''a'']"
    by (simp add: st1_def build_def setitem_def new_trie_def new_node_def end_word_def)
  moreover have "getitem (kb_words st1) ''a'' = Some ([(0, 0)], 0, 1 / 2)"
    by (simp add: st1_def build_def setitem_def new_trie_def new_node_def getitem_def Let_def)
  ultimately show "candidate_matches st1 '''' [] = Inl IndexError"
    by (simp add: candidate_matches_def err_bind_def py_nth_def)
qed

text \<open>
  C9. The commit tests \<open>cur_word not in self.words\<close> and then stores
  \<open>cur_word.lower()\<close>: committing Cat when cat is in the vocabulary with frequency 1/2
  overwrites the entry of cat with frequency 0, and Cat itself is still not a word of the
  vocabulary. (The counters are updated as the claim says, lemma \<open>commit_word_counts\<close>,
  and a new word in lower case is stored as the claim says, lemma
  \<open>commit_word_new_lowercase\<close>.)
\<close>

theorem commit_capitalised_word_overwrites:
  "getitem (kb_words st_cat) ''cat'' = Some ([(0, 0), (1, 0), (2, 0)], 2, 1 / 2) \<and>
   ''Cat'' \<notin> set (words (kb_words st_cat)) \<and>
   commit_word st_cat '''' ''Cat'' =
     Inr (st_cat\<lparr>user_nograms := 2,
                 kb_words := setitem (kb_words st_cat) ''cat'' ([(0, 0), (1, 0), (2, 0)], 2, 0),
                 user_unigrams := Mapping.update ''Cat'' 1 (user_unigrams st_cat)\<rparr>) \<and>
   getitem (setitem (kb_words st_cat) ''cat'' ([(0, 0), (1, 0), (2, 0)], 2, 0)) ''cat''
     = Some ([(0, 0), (1, 0), (2, 0)], 2, 0) \<and>
   getitem (setitem (kb_words st_cat) ''cat'' ([(0, 0), (1, 0), (2, 0)], 2, 0)) ''Cat'' = None \<and>
   words (setitem (kb_words st_cat) ''cat'' ([(0, 0), (1, 0), (2, 0)], 2, 0)) = [''cat'']"
proof -
  have g: "getitem (kb_words st_cat) ''Cat'' = None"
    by (simp add: st_cat_def build_def setitem_def new_trie_def new_node_def getitem_def Let_def)
  have w: "words (setitem (kb_words st_cat) ''cat'' ([(0, 0), (1, 0), (2, 0)], 2, 0)) = [''cat'']"
    by (simp add: st_cat_def build_def setitem_def new_trie_def new_node_def end_word_def Let_def)
  show ?thesis
    by (simp add: st_cat_getitem st_cat_words commit_Cat getitem_setitem g w)
qed

end
